theory Spec2Isabelle
  imports Main "HOL-Library.Word" "HOL-Library.Sublist"
begin

section \<open>The memory query routine of \<^verbatim>\<open>sources/memquery.c\<close>\<close>

text \<open>
  The repository consists of one C function, \<^verbatim>\<open>getAvailableMemory\<close>, which reads
  \<^verbatim>\<open>/proc/meminfo\<close> with \<^verbatim>\<open>fgets\<close> into a 512-byte buffer and recognises five labelled
  fields with \<^verbatim>\<open>sscanf\<close>. The embedding below keeps the structure of the C text: the
  C library calls the function makes (\<^verbatim>\<open>fopen\<close>, \<^verbatim>\<open>fgets\<close>, \<^verbatim>\<open>sscanf\<close>) are modelled first,
  as far as the function uses them, then the chain of \<^verbatim>\<open>sscanf\<close> tests, the reading
  loop with its \<^verbatim>\<open>break\<close>, and the function itself.
\<close>

subsection \<open>C values\<close>

text \<open>
  \<^verbatim>\<open>long\<close> is the 64-bit two's complement integer of the LP64 platforms that have
  \<^verbatim>\<open>/proc/meminfo\<close>. Comparisons of the code that depend on the sign are signed
  (\<open><s\<close>); multiplication wraps around, which is what the compiled code does where C
  leaves signed overflow undefined.
\<close>

type_synonym long = "64 word"

definition LONG_MAX :: int where
  "LONG_MAX = 2 ^ 63 - 1"

definition LONG_MIN :: int where
  "LONG_MIN = - (2 ^ 63)"

text \<open>The end-of-file value that \<^verbatim>\<open>sscanf\<close> returns on an input failure.\<close>

definition EOF :: int where
  "EOF = - 1"

abbreviation (input) NL :: char where
  "NL \<equiv> CHR 0x0A"

abbreviation (input) NUL :: char where
  "NUL \<equiv> CHR 0x00"

text \<open>\<^verbatim>\<open>isspace\<close> and \<^verbatim>\<open>isdigit\<close> in the C locale.\<close>

definition isspace :: "char \<Rightarrow> bool" where
  "isspace c = (c = CHR '' '' \<or> c = CHR 0x09 \<or> c = CHR 0x0A \<or> c = CHR 0x0B \<or> c = CHR 0x0C \<or> c = CHR 0x0D)"

definition isdigit :: "char \<Rightarrow> bool" where
  "isdigit c = (48 \<le> (of_char c :: nat) \<and> (of_char c :: nat) \<le> 57)"

definition digit_val :: "char \<Rightarrow> nat" where
  "digit_val c = of_char c - 48"

definition digits_val :: "string \<Rightarrow> nat" where
  "digits_val ds = foldl (\<lambda>a c. 10 * a + digit_val c) 0 ds"

text \<open>
  The value a \<^verbatim>\<open>%ld\<close> conversion stores for a sign and a non-empty digit sequence.
  A numeral outside the range of \<^verbatim>\<open>long\<close> is stored as the nearest bound, as the C
  library of the platform (\<^verbatim>\<open>strtol\<close>) does.
\<close>

definition long_of_digits :: "bool \<Rightarrow> string \<Rightarrow> long" where
  "long_of_digits neg ds =
     (let m = int (digits_val ds);
          x = (if neg then - m else m)
      in word_of_int (if LONG_MAX < x then LONG_MAX else if x < LONG_MIN then LONG_MIN else x))"

subsection \<open>\<^verbatim>\<open>sscanf\<close>\<close>

text \<open>
  The input item of \<^verbatim>\<open>%ld\<close>, read after white space has been skipped: an optional
  sign and then decimal digits, as many as there are. With no digit the conversion
  fails. The result is the stored value and the input that follows the digits.
\<close>

definition scan_ld :: "string \<Rightarrow> (long \<times> string) option" where
  "scan_ld inp =
     (let neg = (case inp of [] \<Rightarrow> False | c # _ \<Rightarrow> c = CHR ''-'');
          body = (case inp of [] \<Rightarrow> [] | c # cs \<Rightarrow> if c = CHR ''-'' \<or> c = CHR ''+'' then cs else inp);
          ds = takeWhile isdigit body
      in if ds = [] then None else Some (long_of_digits neg ds, dropWhile isdigit body))"

text \<open>
  \<^verbatim>\<open>sscanf\<close> for the formats of the code: a white-space character of the format
  skips any white space of the input, \<^verbatim>\<open>%ld\<close> skips white space and converts, every
  other character must be the next character of the input. The result is the return
  value (the number of values stored, or \<^verbatim>\<open>EOF\<close> when the input ends before the first
  conversion) and the values stored, in order. What follows the last successful
  conversion in the format cannot change either.
\<close>

function vsscanf :: "string \<Rightarrow> string \<Rightarrow> long list \<Rightarrow> int \<times> long list" where
  "vsscanf inp [] acc = (int (length acc), acc)"
| "vsscanf inp (f # fs) acc =
     (if isspace f then vsscanf (dropWhile isspace inp) fs acc
      else if f = CHR ''%'' then
        (if take 2 fs = ''ld'' then
           (let inp' = dropWhile isspace inp in
            if inp' = [] then (if acc = [] then EOF else int (length acc), acc)
            else (case scan_ld inp' of
                    None \<Rightarrow> (int (length acc), acc)
                  | Some (x, rest) \<Rightarrow> vsscanf rest (drop 2 fs) (acc @ [x])))
         else (int (length acc), acc))
      else (case inp of
              [] \<Rightarrow> (if acc = [] then EOF else int (length acc), acc)
            | c # cs \<Rightarrow> if c = f then vsscanf cs fs acc else (int (length acc), acc)))"
  by pat_completeness auto
termination
  by (relation "measure (\<lambda>(inp, fmt, acc). length fmt)") auto

definition sscanf :: "string \<Rightarrow> string \<Rightarrow> int \<times> long list" where
  "sscanf str fmt = vsscanf str fmt []"

text \<open>
  The buffer is a C string: \<^verbatim>\<open>sscanf\<close> sees it up to the first NUL byte.
\<close>

definition c_str :: "string \<Rightarrow> string" where
  "c_str buf = takeWhile (\<lambda>c. c \<noteq> NUL) buf"

text \<open>
  The test \<^verbatim>\<open>sscanf(lineBuffer, fmt, &value) == 1\<close> of the code, with the value
  stored in \<^verbatim>\<open>value\<close> when it holds.
\<close>

definition sscanf_value :: "string \<Rightarrow> string \<Rightarrow> long option" where
  "sscanf_value lineBuffer fmt =
     (case sscanf (c_str lineBuffer) fmt of
        (n, []) \<Rightarrow> None
      | (n, x # _) \<Rightarrow> if n = 1 then Some x else None)"

subsection \<open>\<^verbatim>\<open>fopen\<close> and \<^verbatim>\<open>fgets\<close>\<close>

text \<open>
  A file has contents and may or may not be readable by the caller; a path names a
  file or nothing. \<^verbatim>\<open>fopen(path, "r")\<close> gives the stream of the file's bytes, or
  \<^verbatim>\<open>NULL\<close> (\<open>None\<close>).
\<close>

record file_entry =
  readable :: bool
  bytes :: string

type_synonym filesystem = "string \<Rightarrow> file_entry option"

definition fopen_r :: "filesystem \<Rightarrow> string \<Rightarrow> string option" where
  "fopen_r fs path =
     (case fs path of
        None \<Rightarrow> None
      | Some f \<Rightarrow> if readable f then Some (bytes f) else None)"

text \<open>
  \<open>fgets_n n stream\<close> reads at most \<open>n\<close> bytes and stops after a newline: the bytes
  read and the rest of the stream.
\<close>

fun fgets_n :: "nat \<Rightarrow> string \<Rightarrow> string \<times> string" where
  "fgets_n 0 stream = ([], stream)"
| "fgets_n (Suc n) [] = ([], [])"
| "fgets_n (Suc n) (c # cs) =
     (if c = NL then ([c], cs)
      else (case fgets_n n cs of (buf, rest) \<Rightarrow> (c # buf, rest)))"

text \<open>
  \<^verbatim>\<open>fgets(buf, n, stream)\<close> stores at most \<open>n - 1\<close> bytes; at the end of the
  stream it returns \<^verbatim>\<open>NULL\<close>.
\<close>

definition fgets :: "nat \<Rightarrow> string \<Rightarrow> (string \<times> string) option" where
  "fgets n stream = (if stream = [] then None else Some (fgets_n (n - 1) stream))"

definition sizeof_lineBuffer :: nat where
  "sizeof_lineBuffer = 512"

subsection \<open>The scanning loop\<close>

text \<open>
  The variables the loop reads and writes: the two objects behind the mandatory output
  pointers and the three locals for the huge-page fields. \<open>- 1\<close> is the code's mark
  for a value not found yet.
\<close>

record vars =
  availableMemoryKb :: long
  freeSwapKb :: long
  hugeTlbTotalPages :: long
  hugeTlbFreePages :: long
  hugeTlbPageSize :: long

text \<open>
  The values before the loop: the locals are initialised where they are declared, the
  two mandatory outputs after the source has been opened.
\<close>

definition init_vars :: vars where
  "init_vars = \<lparr>availableMemoryKb = - 1, freeSwapKb = - 1, hugeTlbTotalPages = - 1,
                 hugeTlbFreePages = - 1, hugeTlbPageSize = - 1\<rparr>"

text \<open>The chain of \<^verbatim>\<open>sscanf\<close> tests on one buffer.\<close>

definition scan_line :: "string \<Rightarrow> vars \<Rightarrow> vars" where
  "scan_line lineBuffer v =
     (case sscanf_value lineBuffer ''MemAvailable: %ld kB'' of
        Some x \<Rightarrow> v\<lparr>availableMemoryKb := x\<rparr>
      | None \<Rightarrow>
     (case sscanf_value lineBuffer ''SwapFree: %ld kB'' of
        Some x \<Rightarrow> v\<lparr>freeSwapKb := x\<rparr>
      | None \<Rightarrow>
     (case sscanf_value lineBuffer ''HugePages_Total: %ld'' of
        Some x \<Rightarrow> v\<lparr>hugeTlbTotalPages := x\<rparr>
      | None \<Rightarrow>
     (case sscanf_value lineBuffer ''HugePages_Free: %ld'' of
        Some x \<Rightarrow> v\<lparr>hugeTlbFreePages := x\<rparr>
      | None \<Rightarrow>
     (case sscanf_value lineBuffer ''Hugepagesize: %ld kB'' of
        Some x \<Rightarrow> v\<lparr>hugeTlbPageSize := x\<rparr>
      | None \<Rightarrow> v)))))"

text \<open>
  The condition under which the loop executes \<^verbatim>\<open>break\<close>; \<open>wantHuge\<close> stands for
  \<^verbatim>\<open>hugePagesInfoKb != NULL\<close>.
\<close>

definition early_exit :: "bool \<Rightarrow> vars \<Rightarrow> bool" where
  "early_exit wantHuge v =
     (availableMemoryKb v \<noteq> - 1 \<and> freeSwapKb v \<noteq> - 1 \<and>
      (\<not> wantHuge \<or>
       (hugeTlbTotalPages v \<noteq> - 1 \<and> hugeTlbFreePages v \<noteq> - 1 \<and> hugeTlbPageSize v \<noteq> - 1)))"

text \<open>
  \<^verbatim>\<open>while (fgets(lineBuffer, sizeof(lineBuffer), meminfoFile)) { ... }\<close>: the final
  variables and the part of the stream that was not read.
\<close>

function read_loop :: "bool \<Rightarrow> string \<Rightarrow> vars \<Rightarrow> vars \<times> string" where
  "read_loop wantHuge stream v =
     (case fgets sizeof_lineBuffer stream of
        None \<Rightarrow> (v, stream)
      | Some (lineBuffer, stream') \<Rightarrow>
          (let v' = scan_line lineBuffer v
           in if early_exit wantHuge v' then (v', stream')
              else read_loop wantHuge stream' v'))"
  by pat_completeness auto
termination
proof (relation "measure (\<lambda>(wantHuge, stream, v). length stream)")
  show "wf (measure (\<lambda>(wantHuge, stream, v). length stream))"
    by simp
next
  fix wantHuge :: bool and stream :: string and v :: vars
    and x2 :: "string \<times> string" and lineBuffer stream' :: string and v' :: vars
  assume rd: "fgets sizeof_lineBuffer stream = Some x2" and pr: "(lineBuffer, stream') = x2"
  have shrink: "length (snd (fgets_n (Suc n) s)) < length s" if "s \<noteq> []" for n s
    using that
  proof (induction n arbitrary: s)
    case 0
    then show ?case by (cases s) auto
  next
    case (Suc n)
    then obtain c cs where s: "s = c # cs" by (cases s) auto
    show ?case
    proof (cases cs)
      case Nil
      with s show ?thesis by (auto split: prod.splits)
    next
      case (Cons d ds)
      with Suc.IH [of cs] have "length (snd (fgets_n (Suc n) cs)) < length cs" by simp
      with s show ?thesis by (auto split: prod.splits)
    qed
  qed
  from rd pr have "stream \<noteq> []" and "stream' = snd (fgets_n (Suc 510) stream)"
    by (auto simp: fgets_def sizeof_lineBuffer_def split: if_splits)
  with shrink [of stream 510]
  show "((wantHuge, stream', v'), (wantHuge, stream, v)) \<in> measure (\<lambda>(wantHuge, stream, v). length stream)"
    by simp
qed

declare read_loop.simps [simp del]

subsection \<open>\<^verbatim>\<open>getAvailableMemory\<close>\<close>

text \<open>
  A pointer argument is \<open>None\<close> for \<^verbatim>\<open>NULL\<close> and \<open>Some x\<close> for the address of an object
  of the caller that holds \<open>x\<close>; the objects of the three arguments are distinct, as
  they are in the caller in the repository. The outcome of a call is the value returned
  and what the three objects hold then.
\<close>

record outcome =
  ret :: int
  out_availableMemoryKb :: "long option"
  out_freeSwapKb :: "long option"
  out_hugePagesInfoKb :: "long option"

definition getAvailableMemory ::
    "filesystem \<Rightarrow> long option \<Rightarrow> long option \<Rightarrow> long option \<Rightarrow> outcome" where
  "getAvailableMemory fs availableMemoryKb_ptr freeSwapKb_ptr hugePagesInfoKb_ptr =
     (if availableMemoryKb_ptr = None \<or> freeSwapKb_ptr = None then
        \<lparr>ret = 1, out_availableMemoryKb = availableMemoryKb_ptr,
         out_freeSwapKb = freeSwapKb_ptr, out_hugePagesInfoKb = hugePagesInfoKb_ptr\<rparr>
      else
        (case fopen_r fs ''/proc/meminfo'' of
           None \<Rightarrow>
             \<lparr>ret = 1, out_availableMemoryKb = availableMemoryKb_ptr,
              out_freeSwapKb = freeSwapKb_ptr, out_hugePagesInfoKb = hugePagesInfoKb_ptr\<rparr>
         | Some meminfoFile \<Rightarrow>
             (let wantHuge = (hugePagesInfoKb_ptr \<noteq> None);
                  hugeDefault = (if wantHuge then Some 0 else None);
                  v = fst (read_loop wantHuge meminfoFile init_vars)
              in if availableMemoryKb v = - 1 \<or> freeSwapKb v = - 1 then
                   \<lparr>ret = 1, out_availableMemoryKb = Some (availableMemoryKb v),
                    out_freeSwapKb = Some (freeSwapKb v), out_hugePagesInfoKb = hugeDefault\<rparr>
                 else if wantHuge \<and> 0 <s hugeTlbTotalPages v \<and> hugeTlbFreePages v \<noteq> - 1 \<and>
                         hugeTlbPageSize v \<noteq> - 1 then
                   \<lparr>ret = 0, out_availableMemoryKb = Some (availableMemoryKb v),
                    out_freeSwapKb = Some (freeSwapKb v),
                    out_hugePagesInfoKb = Some (hugeTlbFreePages v * hugeTlbPageSize v)\<rparr>
                 else
                   \<lparr>ret = 0, out_availableMemoryKb = Some (availableMemoryKb v),
                    out_freeSwapKb = Some (freeSwapKb v), out_hugePagesInfoKb = hugeDefault\<rparr>)))"

section \<open>Notions for stating the properties\<close>

subsection \<open>Buffers and lines\<close>

text \<open>
  The buffers that successive calls of \<^verbatim>\<open>fgets\<close> return on a stream, until it returns
  \<^verbatim>\<open>NULL\<close>. A line of at most 510 bytes is one buffer, with its newline; a longer
  line is cut into several.
\<close>

function fgets_all :: "string \<Rightarrow> string list" where
  "fgets_all stream =
     (case fgets sizeof_lineBuffer stream of
        None \<Rightarrow> []
      | Some (lineBuffer, stream') \<Rightarrow> lineBuffer # fgets_all stream')"
  by pat_completeness auto
termination
proof (relation "measure length")
  show "wf (measure (length :: string \<Rightarrow> nat))"
    by simp
next
  fix stream :: string and x2 :: "string \<times> string" and lineBuffer stream' :: string
  assume rd: "fgets sizeof_lineBuffer stream = Some x2" and pr: "(lineBuffer, stream') = x2"
  have shrink: "length (snd (fgets_n (Suc n) s)) < length s" if "s \<noteq> []" for n s
    using that
  proof (induction n arbitrary: s)
    case 0
    then show ?case by (cases s) auto
  next
    case (Suc n)
    then obtain c cs where s: "s = c # cs" by (cases s) auto
    show ?case
    proof (cases cs)
      case Nil
      with s show ?thesis by (auto split: prod.splits)
    next
      case (Cons d ds)
      with Suc.IH [of cs] have "length (snd (fgets_n (Suc n) cs)) < length cs" by simp
      with s show ?thesis by (auto split: prod.splits)
    qed
  qed
  from rd pr have "stream \<noteq> []" and "stream' = snd (fgets_n (Suc 510) stream)"
    by (auto simp: fgets_def sizeof_lineBuffer_def split: if_splits)
  with shrink [of stream 510]
  show "(stream', stream) \<in> measure length"
    by simp
qed

declare fgets_all.simps [simp del]

text \<open>
  The loop of the code on the list of these buffers: the final variables and the
  buffers not read. \<open>read_loop_chunks\<close> below shows that it is the same loop.
\<close>

fun scan_chunks :: "bool \<Rightarrow> string list \<Rightarrow> vars \<Rightarrow> vars \<times> string list" where
  "scan_chunks wantHuge [] v = (v, [])"
| "scan_chunks wantHuge (b # bs) v =
     (let v' = scan_line b v
      in if early_exit wantHuge v' then (v', bs) else scan_chunks wantHuge bs v')"

text \<open>
  The buffers that the loop has read when it ends: all buffers of the stream but those
  of the part it left unread.
\<close>

definition buffers_read :: "bool \<Rightarrow> string \<Rightarrow> vars \<Rightarrow> string list" where
  "buffers_read wantHuge stream v =
     (let unread = snd (read_loop wantHuge stream v)
      in take (length (fgets_all stream) - length (fgets_all unread)) (fgets_all stream))"

text \<open>A source text made of lines, each ended by a newline.\<close>

definition unlines :: "string list \<Rightarrow> string" where
  "unlines ls = concat (map (\<lambda>l. l @ [NL]) ls)"

text \<open>
  A source text in general: lines ended by a newline, and after them a last line that
  is not (empty when the text ends with a newline or is empty). Its lines are all of
  these.
\<close>

definition source_text :: "string list \<Rightarrow> string \<Rightarrow> string" where
  "source_text ls t = unlines ls @ t"

definition source_lines :: "string list \<Rightarrow> string \<Rightarrow> string list" where
  "source_lines ls t = (if t = [] then ls else ls @ [t])"

text \<open>A file system in which \<^verbatim>\<open>/proc/meminfo\<close> is readable and has the given contents.\<close>

definition meminfo_fs :: "string \<Rightarrow> filesystem" where
  "meminfo_fs content =
     (\<lambda>path. if path = ''/proc/meminfo'' then Some \<lparr>readable = True, bytes = content\<rparr> else None)"

subsection \<open>Matching a label\<close>

text \<open>
  What a format \<open>label @ '' %ld''\<close> (with or without \<open>'' kB''\<close> after it) finds in a
  string: the string begins with the label, and after any white space an integer
  follows. \<open>sscanf_value_labelled\<close> below shows that the five tests of the code are
  of this form.
\<close>

definition labelled_value :: "string \<Rightarrow> string \<Rightarrow> long option" where
  "labelled_value label s =
     (if prefix label s then map_option fst (scan_ld (dropWhile isspace (drop (length label) s)))
      else None)"

text \<open>The formats of the code that succeed on a buffer.\<close>

definition matching_formats :: "string \<Rightarrow> string list" where
  "matching_formats b =
     filter (\<lambda>fmt. sscanf_value b fmt \<noteq> None)
       [''MemAvailable: %ld kB'', ''SwapFree: %ld kB'', ''HugePages_Total: %ld'',
        ''HugePages_Free: %ld'', ''Hugepagesize: %ld kB'']"

text \<open>A string that begins with an integer: an optional sign, then a digit.\<close>

definition starts_with_integer :: "string \<Rightarrow> bool" where
  "starts_with_integer s =
     (case s of
        [] \<Rightarrow> False
      | c # cs \<Rightarrow>
          if c = CHR ''-'' \<or> c = CHR ''+'' then (case cs of [] \<Rightarrow> False | d # _ \<Rightarrow> isdigit d)
          else isdigit c)"

text \<open>
  The value of the last buffer of a list on which a format succeeds, and \<open>d\<close> when it
  succeeds on none.
\<close>

definition last_value :: "string \<Rightarrow> string list \<Rightarrow> long \<Rightarrow> long" where
  "last_value fmt bs d = last (d # List.map_filter (\<lambda>b. sscanf_value b fmt) bs)"

text \<open>
  A format is observed in a list of buffers when it succeeds on one of them. The
  buffers are unmarked when none of them carries the value \<open>- 1\<close>, the code's mark for a
  value not found yet, for any of the five formats.
\<close>

definition observed :: "string \<Rightarrow> string list \<Rightarrow> bool" where
  "observed fmt bs = (\<exists>b\<in>set bs. sscanf_value b fmt \<noteq> None)"

definition unmarked :: "string list \<Rightarrow> bool" where
  "unmarked bs =
     (\<forall>b\<in>set bs.
        \<forall>fmt\<in>{''MemAvailable: %ld kB'', ''SwapFree: %ld kB'', ''HugePages_Total: %ld'',
               ''HugePages_Free: %ld'', ''Hugepagesize: %ld kB''}.
          sscanf_value b fmt \<noteq> Some (- 1))"

subsection \<open>Well-formed lines\<close>

text \<open>
  The decimal numeral of a natural number, and the two mandatory lines as the kernel
  writes them: the label, padding of any number of blanks, the numeral, \<open>'' kB''\<close>.
\<close>

function dec :: "nat \<Rightarrow> string" where
  "dec n = (if n < 10 then [char_of (48 + n)] else dec (n div 10) @ [char_of (48 + n mod 10)])"
  by pat_completeness auto
termination
  by (relation "measure id") auto

declare dec.simps [simp del]

definition mem_line :: "nat \<Rightarrow> nat \<Rightarrow> string" where
  "mem_line pad x = ''MemAvailable:'' @ replicate pad (CHR '' '') @ dec x @ '' kB''"

definition swap_line :: "nat \<Rightarrow> nat \<Rightarrow> string" where
  "swap_line pad y = ''SwapFree:'' @ replicate pad (CHR '' '') @ dec y @ '' kB''"

subsection \<open>The number written on a line\<close>

text \<open>
  The range of the type \<^verbatim>\<open>long\<close> as a cut on the integers: a number above
  \<open>LONG_MAX\<close> becomes \<open>LONG_MAX\<close>, one below \<open>LONG_MIN\<close> becomes \<open>LONG_MIN\<close>.
\<close>

definition clamp_long :: "int \<Rightarrow> int" where
  "clamp_long n = (if LONG_MAX < n then LONG_MAX else if n < LONG_MIN then LONG_MIN else n)"

text \<open>
  The integer that a string begins with, as a number and not as a value of the code:
  an optional sign and the longest run of digits after it, read in base ten. Nothing
  when no digit stands there.
\<close>

definition scan_numeral :: "string \<Rightarrow> int option" where
  "scan_numeral s =
     (let neg = (case s of [] \<Rightarrow> False | c # _ \<Rightarrow> c = CHR ''-'');
          body = (case s of [] \<Rightarrow> [] | c # cs \<Rightarrow> if c = CHR ''-'' \<or> c = CHR ''+'' then cs else s);
          ds = takeWhile isdigit body
      in if ds = [] then None
         else Some (if neg then - int (digits_val ds) else int (digits_val ds)))"

text \<open>The number written after a label and white space, when the string begins with the label.\<close>

definition labelled_numeral :: "string \<Rightarrow> string \<Rightarrow> int option" where
  "labelled_numeral label s =
     (if prefix label s then scan_numeral (dropWhile isspace (drop (length label) s)) else None)"

text \<open>
  The value portion of a line as the description of the input gives it,
  \<^verbatim>\<open><Label>: <integer> kB\<close> with the unit left out on the lines that count pages: an
  integer (an optional sign and digits) and after it nothing or the unit \<^verbatim>\<open>kB\<close>, with
  any white space, the newline of the line among it, before and after the unit.
\<close>

definition well_formed_value :: "string \<Rightarrow> bool" where
  "well_formed_value s =
     (let body = (case s of [] \<Rightarrow> [] | c # cs \<Rightarrow> if c = CHR ''-'' \<or> c = CHR ''+'' then cs else s);
          rest = dropWhile isspace (dropWhile isdigit body)
      in takeWhile isdigit body \<noteq> [] \<and>
         (rest = [] \<or> (prefix ''kB'' rest \<and> dropWhile isspace (drop 2 rest) = [])))"

section \<open>Properties of the C library model\<close>

lemma vsscanf_no_conv:
  "CHR ''%'' \<notin> set fmt \<Longrightarrow> acc \<noteq> [] \<Longrightarrow> vsscanf inp fmt acc = (int (length acc), acc)"
  by (induction inp fmt acc rule: vsscanf.induct) (auto split: list.splits)

lemma vsscanf_literal_prefix:
  "\<forall>c\<in>set lit. \<not> isspace c \<and> c \<noteq> CHR ''%'' \<Longrightarrow> prefix lit inp \<Longrightarrow>
   vsscanf inp (lit @ fmt) acc = vsscanf (drop (length lit) inp) fmt acc"
proof (induction lit arbitrary: inp)
  case Nil
  then show ?case by simp
next
  case (Cons a lit)
  from Cons.prems(2) obtain r where "inp = a # r" and "prefix lit r"
    by (cases inp) auto
  with Cons show ?case by simp
qed

lemma vsscanf_literal_mismatch:
  "\<forall>c\<in>set lit. \<not> isspace c \<and> c \<noteq> CHR ''%'' \<Longrightarrow> \<not> prefix lit inp \<Longrightarrow>
   snd (vsscanf inp (lit @ fmt) acc) = acc"
proof (induction lit arbitrary: inp)
  case Nil
  then show ?case by simp
next
  case (Cons a lit)
  then show ?case by (cases inp) auto
qed

lemma vsscanf_ld:
  assumes "CHR ''%'' \<notin> set tail"
  shows "vsscanf inp ('' %ld'' @ tail) [] =
     (case scan_ld (dropWhile isspace inp) of
        None \<Rightarrow> (if dropWhile isspace inp = [] then EOF else 0, [])
      | Some (x, rest) \<Rightarrow> (1, [x]))"
proof -
  define d where "d = dropWhile isspace inp"
  have sp: "isspace (CHR '' '')" and pc: "\<not> isspace (CHR ''%'')"
    by (simp_all add: isspace_def)
  have dd: "dropWhile isspace d = d"
    unfolding d_def by (metis dropWhile_idem)
  have nil: "scan_ld [] = None"
    by (simp add: scan_ld_def)
  have "vsscanf inp ('' %ld'' @ tail) [] = vsscanf d (''%ld'' @ tail) []"
    by (simp add: sp d_def)
  also have "\<dots> = (if d = [] then (EOF, [])
      else (case scan_ld d of None \<Rightarrow> (0, []) | Some (x, rest) \<Rightarrow> vsscanf rest tail [x]))"
    by (simp add: pc dd Let_def del: dropWhile_eq_Nil_conv split: option.splits)
  also have "\<dots> = (case scan_ld d of
        None \<Rightarrow> (if d = [] then EOF else 0, [])
      | Some (x, rest) \<Rightarrow> (1, [x]))"
    using assms by (cases "d = []") (simp_all add: nil vsscanf_no_conv split: option.splits)
  finally show ?thesis
    by (simp only: d_def)
qed

lemma sscanf_value_labelled:
  assumes lit: "\<forall>c\<in>set lit. \<not> isspace c \<and> c \<noteq> CHR ''%''" and tail: "CHR ''%'' \<notin> set tail"
  shows "sscanf_value b (lit @ '' %ld'' @ tail) = labelled_value lit (c_str b)"
proof (cases "prefix lit (c_str b)")
  case True
  then show ?thesis
    using vsscanf_literal_prefix [OF lit True, of "'' %ld'' @ tail" "[]"]
      vsscanf_ld [OF tail, of "drop (length lit) (c_str b)"]
    by (auto simp: sscanf_value_def sscanf_def labelled_value_def
        simp del: vsscanf.simps append.simps
        split: option.splits list.splits prod.splits if_splits)
next
  case False
  then show ?thesis
    using vsscanf_literal_mismatch [OF lit False, of "'' %ld'' @ tail" "[]"]
    by (auto simp: sscanf_value_def sscanf_def labelled_value_def split: prod.splits list.splits)
qed

lemma sscanf_value_MemAvailable:
  "sscanf_value b ''MemAvailable: %ld kB'' = labelled_value ''MemAvailable:'' (c_str b)"
  using sscanf_value_labelled [of "''MemAvailable:''" "'' kB''" b] by (simp add: isspace_def)

lemma sscanf_value_SwapFree:
  "sscanf_value b ''SwapFree: %ld kB'' = labelled_value ''SwapFree:'' (c_str b)"
  using sscanf_value_labelled [of "''SwapFree:''" "'' kB''" b] by (simp add: isspace_def)

lemma sscanf_value_HugePages_Total:
  "sscanf_value b ''HugePages_Total: %ld'' = labelled_value ''HugePages_Total:'' (c_str b)"
  using sscanf_value_labelled [of "''HugePages_Total:''" "[]" b] by (simp add: isspace_def)

lemma sscanf_value_HugePages_Free:
  "sscanf_value b ''HugePages_Free: %ld'' = labelled_value ''HugePages_Free:'' (c_str b)"
  using sscanf_value_labelled [of "''HugePages_Free:''" "[]" b] by (simp add: isspace_def)

lemma sscanf_value_Hugepagesize:
  "sscanf_value b ''Hugepagesize: %ld kB'' = labelled_value ''Hugepagesize:'' (c_str b)"
  using sscanf_value_labelled [of "''Hugepagesize:''" "'' kB''" b] by (simp add: isspace_def)

lemma fgets_n_concat: "fgets_n n s = (b, r) \<Longrightarrow> s = b @ r"
proof (induction n s arbitrary: b r rule: fgets_n.induct)
  case (1 stream)
  then show ?case by simp
next
  case (2 n)
  then show ?case by simp
next
  case (3 n c cs)
  show ?case
  proof (cases "c = NL")
    case True
    with 3 show ?thesis by simp
  next
    case False
    obtain b' r' where br: "fgets_n n cs = (b', r')" by (cases "fgets_n n cs")
    with 3(1) [OF False br] 3(2) False show ?thesis by simp
  qed
qed

lemma fgets_None: "fgets n s = None \<longleftrightarrow> s = []"
  by (simp add: fgets_def)

lemma fgets_all_Nil: "fgets_all [] = []"
  by (simp add: fgets_all.simps fgets_def)

lemma fgets_all_None: "fgets sizeof_lineBuffer s = None \<Longrightarrow> fgets_all s = []"
  by (subst fgets_all.simps) simp

lemma fgets_all_Some:
  "fgets sizeof_lineBuffer s = Some (b, r) \<Longrightarrow> fgets_all s = b # fgets_all r"
  by (subst fgets_all.simps) simp

lemma fgets_concat: "fgets n s = Some (b, r) \<Longrightarrow> s = b @ r"
  by (cases "s = []") (simp_all add: fgets_def fgets_n_concat)

lemma concat_fgets_all: "concat (fgets_all s) = s"
proof (induction s rule: fgets_all.induct)
  case (1 stream)
  show ?case
  proof (cases "fgets sizeof_lineBuffer stream")
    case None
    then have "stream = []" by (simp add: fgets_None)
    then show ?thesis by (simp add: fgets_all_Nil)
  next
    case (Some p)
    obtain b r where p: "p = (b, r)" by (cases p)
    have ih: "concat (fgets_all r) = r"
      using 1 [OF Some p [symmetric]] .
    have "concat (fgets_all stream) = b @ r"
      using Some p by (simp add: fgets_all_Some ih)
    also have "\<dots> = stream"
      using Some p fgets_concat [of sizeof_lineBuffer stream b r] by simp
    finally show ?thesis .
  qed
qed

lemma read_loop_None: "fgets sizeof_lineBuffer s = None \<Longrightarrow> read_loop h s v = (v, s)"
  by (subst read_loop.simps) simp

lemma read_loop_Some:
  "fgets sizeof_lineBuffer s = Some (b, r) \<Longrightarrow>
   read_loop h s v =
     (if early_exit h (scan_line b v) then (scan_line b v, r) else read_loop h r (scan_line b v))"
  by (subst read_loop.simps) (simp add: Let_def)

lemma read_loop_chunks:
  "read_loop h s v = (case scan_chunks h (fgets_all s) v of (v', bs) \<Rightarrow> (v', concat bs))"
proof (induction h s v rule: read_loop.induct)
  case (1 h stream v)
  show ?case
  proof (cases "fgets sizeof_lineBuffer stream")
    case None
    then have "stream = []" by (simp add: fgets_None)
    with None show ?thesis
      by (simp add: read_loop_None fgets_all_Nil)
  next
    case (Some p)
    obtain b r where p: "p = (b, r)" by (cases p)
    from Some p have sm: "fgets sizeof_lineBuffer stream = Some (b, r)" by simp
    show ?thesis
    proof (cases "early_exit h (scan_line b v)")
      case True
      then show ?thesis
        by (simp add: read_loop_Some [OF sm] fgets_all_Some [OF sm] concat_fgets_all)
    next
      case False
      have "read_loop h r (scan_line b v) =
          (case scan_chunks h (fgets_all r) (scan_line b v) of (v', bs) \<Rightarrow> (v', concat bs))"
        using 1 [OF Some p [symmetric] refl False] .
      with False show ?thesis
        by (simp add: read_loop_Some [OF sm] fgets_all_Some [OF sm])
    qed
  qed
qed

lemma scan_chunks_char:
  "scan_chunks h cs v = (v', rest) \<Longrightarrow>
   \<exists>pre. cs = pre @ rest \<and> v' = fold scan_line pre v \<and>
     (early_exit h v' \<or> rest = []) \<and>
     (\<forall>k. 0 < k \<and> k < length pre \<longrightarrow> \<not> early_exit h (fold scan_line (take k pre) v))"
proof (induction cs arbitrary: v)
  case Nil
  then show ?case by simp
next
  case (Cons b bs)
  show ?case
  proof (cases "early_exit h (scan_line b v)")
    case True
    with Cons.prems have "v' = scan_line b v" "rest = bs" by simp_all
    with True have "b # bs = [b] @ rest \<and> v' = fold scan_line [b] v \<and>
       (early_exit h v' \<or> rest = []) \<and>
       (\<forall>k. 0 < k \<and> k < length [b] \<longrightarrow> \<not> early_exit h (fold scan_line (take k [b]) v))"
      by simp
    then show ?thesis by blast
  next
    case False
    with Cons.prems have "scan_chunks h bs (scan_line b v) = (v', rest)" by simp
    from Cons.IH [OF this] obtain pre where pre: "bs = pre @ rest"
      "v' = fold scan_line pre (scan_line b v)" "early_exit h v' \<or> rest = []"
      "\<forall>k. 0 < k \<and> k < length pre \<longrightarrow> \<not> early_exit h (fold scan_line (take k pre) (scan_line b v))"
      by blast
    have "\<not> early_exit h (fold scan_line (take k (b # pre)) v)" if "0 < k" "k < length (b # pre)" for k
    proof (cases k)
      case 0
      with that show ?thesis by simp
    next
      case (Suc j)
      show ?thesis
      proof (cases j)
        case 0
        with Suc False show ?thesis by simp
      next
        case (Suc i)
        with \<open>k = Suc j\<close> that pre(4) show ?thesis by simp
      qed
    qed
    with pre have "b # bs = (b # pre) @ rest \<and> v' = fold scan_line (b # pre) v \<and>
       (early_exit h v' \<or> rest = []) \<and>
       (\<forall>k. 0 < k \<and> k < length (b # pre) \<longrightarrow> \<not> early_exit h (fold scan_line (take k (b # pre)) v))"
      by simp
    then show ?thesis by blast
  qed
qed

lemmas sscanf_value_labels =
  sscanf_value_MemAvailable sscanf_value_SwapFree sscanf_value_HugePages_Total
  sscanf_value_HugePages_Free sscanf_value_Hugepagesize

lemma labelled_value_exclusive:
  "labelled_value l1 s = Some x \<Longrightarrow> \<not> prefix l1 l2 \<Longrightarrow> \<not> prefix l2 l1 \<Longrightarrow>
   labelled_value l2 s = None"
  by (auto simp: labelled_value_def split: if_splits dest: prefix_same_cases)

lemma scan_line_availableMemoryKb:
  "availableMemoryKb (scan_line b v) =
     (case sscanf_value b ''MemAvailable: %ld kB'' of Some x \<Rightarrow> x | None \<Rightarrow> availableMemoryKb v)"
  by (simp add: scan_line_def split: option.splits)

lemma scan_line_freeSwapKb:
  "freeSwapKb (scan_line b v) =
     (case sscanf_value b ''SwapFree: %ld kB'' of Some x \<Rightarrow> x | None \<Rightarrow> freeSwapKb v)"
  by (auto simp: scan_line_def sscanf_value_labels split: option.splits
      dest: labelled_value_exclusive [where ?l2.0 = "''SwapFree:''"])

lemma scan_line_hugeTlbTotalPages:
  "hugeTlbTotalPages (scan_line b v) =
     (case sscanf_value b ''HugePages_Total: %ld'' of Some x \<Rightarrow> x | None \<Rightarrow> hugeTlbTotalPages v)"
  by (auto simp: scan_line_def sscanf_value_labels split: option.splits
      dest: labelled_value_exclusive [where ?l2.0 = "''HugePages_Total:''"])

lemma scan_line_hugeTlbFreePages:
  "hugeTlbFreePages (scan_line b v) =
     (case sscanf_value b ''HugePages_Free: %ld'' of Some x \<Rightarrow> x | None \<Rightarrow> hugeTlbFreePages v)"
  by (auto simp: scan_line_def sscanf_value_labels split: option.splits
      dest: labelled_value_exclusive [where ?l2.0 = "''HugePages_Free:''"])

lemma scan_line_hugeTlbPageSize:
  "hugeTlbPageSize (scan_line b v) =
     (case sscanf_value b ''Hugepagesize: %ld kB'' of Some x \<Rightarrow> x | None \<Rightarrow> hugeTlbPageSize v)"
  by (auto simp: scan_line_def sscanf_value_labels split: option.splits
      dest: labelled_value_exclusive [where ?l2.0 = "''Hugepagesize:''"])

lemma last_value_Nil: "last_value fmt [] d = d"
  by (simp add: last_value_def List.map_filter_simps)

lemma last_value_snoc:
  "last_value fmt (bs @ [b]) d =
     (case sscanf_value b fmt of Some x \<Rightarrow> x | None \<Rightarrow> last_value fmt bs d)"
  by (simp add: last_value_def List.map_filter_def split: option.splits)

lemma fold_scan_line_fields:
  "availableMemoryKb (fold scan_line bs v) = last_value ''MemAvailable: %ld kB'' bs (availableMemoryKb v)"
  "freeSwapKb (fold scan_line bs v) = last_value ''SwapFree: %ld kB'' bs (freeSwapKb v)"
  "hugeTlbTotalPages (fold scan_line bs v) = last_value ''HugePages_Total: %ld'' bs (hugeTlbTotalPages v)"
  "hugeTlbFreePages (fold scan_line bs v) = last_value ''HugePages_Free: %ld'' bs (hugeTlbFreePages v)"
  "hugeTlbPageSize (fold scan_line bs v) = last_value ''Hugepagesize: %ld kB'' bs (hugeTlbPageSize v)"
proof (induction bs rule: rev_induct)
  case Nil
  { case 1 show ?case by (simp add: last_value_Nil) }
  { case 2 show ?case by (simp add: last_value_Nil) }
  { case 3 show ?case by (simp add: last_value_Nil) }
  { case 4 show ?case by (simp add: last_value_Nil) }
  { case 5 show ?case by (simp add: last_value_Nil) }
next
  case (snoc b bs)
  { case 1 with snoc show ?case by (simp add: last_value_snoc scan_line_availableMemoryKb split: option.splits) }
  { case 2 with snoc show ?case by (simp add: last_value_snoc scan_line_freeSwapKb split: option.splits) }
  { case 3 with snoc show ?case by (simp add: last_value_snoc scan_line_hugeTlbTotalPages split: option.splits) }
  { case 4 with snoc show ?case by (simp add: last_value_snoc scan_line_hugeTlbFreePages split: option.splits) }
  { case 5 with snoc show ?case by (simp add: last_value_snoc scan_line_hugeTlbPageSize split: option.splits) }
qed

lemma fgets_n_line:
  "NL \<notin> set l \<Longrightarrow> length l < n \<Longrightarrow> fgets_n n (l @ NL # rest) = (l @ [NL], rest)"
proof (induction l arbitrary: n)
  case Nil
  then show ?case by (cases n) simp_all
next
  case (Cons a l)
  then obtain m where "n = Suc m" by (cases n) simp_all
  with Cons show ?case by auto
qed

lemma fgets_n_full:
  "NL \<notin> set l \<Longrightarrow> length l = n \<Longrightarrow> fgets_n n (l @ rest) = (l, rest)"
proof (induction l arbitrary: n)
  case Nil
  then show ?case by simp
next
  case (Cons a l)
  then obtain m where "n = Suc m" by (cases n) simp_all
  with Cons show ?case by auto
qed

lemma fgets_line:
  "NL \<notin> set l \<Longrightarrow> length l \<le> 510 \<Longrightarrow>
   fgets sizeof_lineBuffer (l @ NL # rest) = Some (l @ [NL], rest)"
  by (simp add: fgets_def sizeof_lineBuffer_def fgets_n_line)

lemma fgets_full:
  "NL \<notin> set l \<Longrightarrow> length l = 511 \<Longrightarrow> rest \<noteq> [] \<Longrightarrow>
   fgets sizeof_lineBuffer (l @ rest) = Some (l, rest)"
  by (simp add: fgets_def sizeof_lineBuffer_def fgets_n_full)

lemma fgets_all_line:
  "NL \<notin> set l \<Longrightarrow> length l \<le> 510 \<Longrightarrow> fgets_all (l @ NL # rest) = (l @ [NL]) # fgets_all rest"
  by (simp add: fgets_all_Some [OF fgets_line])

lemma fgets_all_full:
  "NL \<notin> set l \<Longrightarrow> length l = 511 \<Longrightarrow> rest \<noteq> [] \<Longrightarrow> fgets_all (l @ rest) = l # fgets_all rest"
  by (simp add: fgets_all_Some [OF fgets_full])

lemma fgets_all_unlines:
  "\<forall>l\<in>set ls. length l \<le> 510 \<and> NL \<notin> set l \<Longrightarrow> fgets_all (unlines ls) = map (\<lambda>l. l @ [NL]) ls"
proof (induction ls)
  case Nil
  then show ?case by (simp add: unlines_def fgets_all_Nil)
next
  case (Cons l ls)
  then have "fgets_all (l @ NL # unlines ls) = (l @ [NL]) # fgets_all (unlines ls)"
    by (intro fgets_all_line) simp_all
  with Cons show ?case by (simp add: unlines_def)
qed

lemma fgets_all_eq_Nil: "fgets_all s = [] \<longleftrightarrow> s = []"
  by (metis concat.simps(1) concat_fgets_all fgets_all_Nil)

lemma fgets_all_suffix: "fgets_all s = pre @ bs \<Longrightarrow> fgets_all (concat bs) = bs"
proof (induction pre arbitrary: s)
  case Nil
  then show ?case by (metis append_Nil concat_fgets_all)
next
  case (Cons p pre)
  then have "s \<noteq> []" by (auto simp: fgets_all_Nil)
  then obtain b r where sm: "fgets sizeof_lineBuffer s = Some (b, r)"
    by (cases "fgets sizeof_lineBuffer s") (auto simp: fgets_None)
  with Cons.prems have "fgets_all r = pre @ bs"
    by (simp add: fgets_all_Some [OF sm])
  then show ?case by (rule Cons.IH)
qed

lemma read_loop_char:
  assumes "read_loop h s v = (v', unread)"
  shows "fgets_all s = buffers_read h s v @ fgets_all unread"
    and "v' = fold scan_line (buffers_read h s v) v"
    and "early_exit h v' \<or> unread = []"
    and "\<forall>k. 0 < k \<and> k < length (buffers_read h s v) \<longrightarrow>
           \<not> early_exit h (fold scan_line (take k (buffers_read h s v)) v)"
proof -
  obtain bs where sc: "scan_chunks h (fgets_all s) v = (v', bs)" and un: "unread = concat bs"
    using assms by (auto simp: read_loop_chunks split: prod.splits)
  from scan_chunks_char [OF sc] obtain pre where pre: "fgets_all s = pre @ bs"
    "v' = fold scan_line pre v" "early_exit h v' \<or> bs = []"
    "\<forall>k. 0 < k \<and> k < length pre \<longrightarrow> \<not> early_exit h (fold scan_line (take k pre) v)"
    by blast
  have bs: "fgets_all unread = bs"
    using fgets_all_suffix [OF pre(1)] un by simp
  have br: "buffers_read h s v = pre"
    using assms pre(1) bs by (simp add: buffers_read_def)
  show "fgets_all s = buffers_read h s v @ fgets_all unread"
    using pre(1) bs br by simp
  show "v' = fold scan_line (buffers_read h s v) v"
    using pre(2) br by simp
  show "early_exit h v' \<or> unread = []"
    using pre(3) un by auto
  show "\<forall>k. 0 < k \<and> k < length (buffers_read h s v) \<longrightarrow>
           \<not> early_exit h (fold scan_line (take k (buffers_read h s v)) v)"
    using pre(4) br by simp
qed

subsection \<open>Whole calls\<close>

lemma read_loop_unlines:
  "\<forall>l\<in>set ls. length l \<le> 510 \<and> NL \<notin> set l \<Longrightarrow>
   read_loop h (unlines ls) v =
     (case scan_chunks h (map (\<lambda>l. l @ [NL]) ls) v of (v', bs) \<Rightarrow> (v', concat bs))"
  by (simp add: read_loop_chunks fgets_all_unlines)

lemma getAvailableMemory_opened:
  "fopen_r fs ''/proc/meminfo'' = Some content \<Longrightarrow>
   getAvailableMemory fs (Some a0) (Some s0) g =
     (if availableMemoryKb (fst (read_loop (g \<noteq> None) content init_vars)) = - 1 \<or>
         freeSwapKb (fst (read_loop (g \<noteq> None) content init_vars)) = - 1 then
        \<lparr>ret = 1,
         out_availableMemoryKb = Some (availableMemoryKb (fst (read_loop (g \<noteq> None) content init_vars))),
         out_freeSwapKb = Some (freeSwapKb (fst (read_loop (g \<noteq> None) content init_vars))),
         out_hugePagesInfoKb = (if g \<noteq> None then Some 0 else None)\<rparr>
      else
        \<lparr>ret = 0,
         out_availableMemoryKb = Some (availableMemoryKb (fst (read_loop (g \<noteq> None) content init_vars))),
         out_freeSwapKb = Some (freeSwapKb (fst (read_loop (g \<noteq> None) content init_vars))),
         out_hugePagesInfoKb =
           (if g \<noteq> None then
              Some (if 0 <s hugeTlbTotalPages (fst (read_loop (g \<noteq> None) content init_vars)) \<and>
                       hugeTlbFreePages (fst (read_loop (g \<noteq> None) content init_vars)) \<noteq> - 1 \<and>
                       hugeTlbPageSize (fst (read_loop (g \<noteq> None) content init_vars)) \<noteq> - 1
                    then hugeTlbFreePages (fst (read_loop (g \<noteq> None) content init_vars)) *
                         hugeTlbPageSize (fst (read_loop (g \<noteq> None) content init_vars))
                    else 0)
            else None)\<rparr>)"
  by (simp add: getAvailableMemory_def Let_def)

lemma fopen_r_meminfo_fs: "fopen_r (meminfo_fs content) ''/proc/meminfo'' = Some content"
  by (simp add: fopen_r_def meminfo_fs_def)

lemmas eval_buffer =
  scan_line_def sscanf_value_labels labelled_value_def c_str_def scan_ld_def isspace_def
  isdigit_def long_of_digits_def digits_val_def digit_val_def LONG_MAX_def LONG_MIN_def
  early_exit_def init_vars_def word_sless_alt

lemmas eval_call =
  getAvailableMemory_opened [OF fopen_r_meminfo_fs] read_loop_unlines eval_buffer

lemma last_value_cases:
  "last_value fmt bs d = d \<or> (\<exists>b\<in>set bs. sscanf_value b fmt = Some (last_value fmt bs d))"
proof (induction bs rule: rev_induct)
  case Nil
  then show ?case by (simp add: last_value_Nil)
next
  case (snoc b bs)
  then show ?case by (auto simp: last_value_snoc split: option.splits)
qed

lemma read_loop_fields:
  assumes "read_loop h s init_vars = (v, unread)"
  shows "availableMemoryKb v = last_value ''MemAvailable: %ld kB'' (buffers_read h s init_vars) (- 1)"
    and "freeSwapKb v = last_value ''SwapFree: %ld kB'' (buffers_read h s init_vars) (- 1)"
    and "hugeTlbTotalPages v = last_value ''HugePages_Total: %ld'' (buffers_read h s init_vars) (- 1)"
    and "hugeTlbFreePages v = last_value ''HugePages_Free: %ld'' (buffers_read h s init_vars) (- 1)"
    and "hugeTlbPageSize v = last_value ''Hugepagesize: %ld kB'' (buffers_read h s init_vars) (- 1)"
  using read_loop_char(2) [OF assms]
  by (simp_all add: fold_scan_line_fields) (simp_all add: init_vars_def)

lemma set_buffers_read: "set (buffers_read h s v) \<subseteq> set (fgets_all s)"
  by (auto simp: buffers_read_def Let_def dest: in_set_takeD)

subsection \<open>The five formats exclude each other\<close>

lemma scan_ld_None_iff: "scan_ld s = None \<longleftrightarrow> \<not> starts_with_integer s"
proof (cases s)
  case Nil
  then show ?thesis by (simp add: scan_ld_def starts_with_integer_def)
next
  case (Cons c cs)
  have sign: "\<not> isdigit (CHR ''-'')" "\<not> isdigit (CHR ''+'')"
    by (simp_all add: isdigit_def)
  from Cons sign show ?thesis
    by (cases cs) (auto simp: scan_ld_def starts_with_integer_def Let_def)
qed

lemma labelled_value_None_iff:
  "labelled_value label s = None \<longleftrightarrow>
     \<not> (prefix label s \<and> starts_with_integer (dropWhile isspace (drop (length label) s)))"
  by (simp add: labelled_value_def scan_ld_None_iff)

lemma labelled_value_other:
  "prefix l1 s \<Longrightarrow> \<not> prefix l1 l2 \<Longrightarrow> \<not> prefix l2 l1 \<Longrightarrow> labelled_value l2 s = None"
  by (auto simp: labelled_value_def dest: prefix_same_cases)

lemma labelled_value_prefix: "labelled_value l s = Some x \<Longrightarrow> prefix l s"
  by (simp add: labelled_value_def split: if_splits)

lemma only_MemAvailable:
  assumes "prefix ''MemAvailable:'' s"
  shows "labelled_value ''SwapFree:'' s = None" "labelled_value ''HugePages_Total:'' s = None"
    "labelled_value ''HugePages_Free:'' s = None" "labelled_value ''Hugepagesize:'' s = None"
  by (rule labelled_value_other [OF assms]; simp)+

lemma only_SwapFree:
  assumes "prefix ''SwapFree:'' s"
  shows "labelled_value ''MemAvailable:'' s = None" "labelled_value ''HugePages_Total:'' s = None"
    "labelled_value ''HugePages_Free:'' s = None" "labelled_value ''Hugepagesize:'' s = None"
  by (rule labelled_value_other [OF assms]; simp)+

lemma only_HugePages_Total:
  assumes "prefix ''HugePages_Total:'' s"
  shows "labelled_value ''MemAvailable:'' s = None" "labelled_value ''SwapFree:'' s = None"
    "labelled_value ''HugePages_Free:'' s = None" "labelled_value ''Hugepagesize:'' s = None"
  by (rule labelled_value_other [OF assms]; simp)+

lemma only_HugePages_Free:
  assumes "prefix ''HugePages_Free:'' s"
  shows "labelled_value ''MemAvailable:'' s = None" "labelled_value ''SwapFree:'' s = None"
    "labelled_value ''HugePages_Total:'' s = None" "labelled_value ''Hugepagesize:'' s = None"
  by (rule labelled_value_other [OF assms]; simp)+

lemma only_Hugepagesize:
  assumes "prefix ''Hugepagesize:'' s"
  shows "labelled_value ''MemAvailable:'' s = None" "labelled_value ''SwapFree:'' s = None"
    "labelled_value ''HugePages_Total:'' s = None" "labelled_value ''HugePages_Free:'' s = None"
  by (rule labelled_value_other [OF assms]; simp)+

lemma scan_line_unmatched:
  "matching_formats b = [] \<Longrightarrow> scan_line b v = v"
  by (simp add: matching_formats_def scan_line_def split: if_splits)

lemma matched_MemAvailable:
  assumes "sscanf_value b ''MemAvailable: %ld kB'' = Some x"
  shows "matching_formats b = [''MemAvailable: %ld kB'']" "scan_line b v = v\<lparr>availableMemoryKb := x\<rparr>"
proof -
  from assms have "prefix ''MemAvailable:'' (c_str b)"
    by (simp add: sscanf_value_labels labelled_value_prefix)
  from only_MemAvailable [OF this] assms
  show "matching_formats b = [''MemAvailable: %ld kB'']" "scan_line b v = v\<lparr>availableMemoryKb := x\<rparr>"
    by (simp_all add: matching_formats_def scan_line_def sscanf_value_labels)
qed

lemma matched_SwapFree:
  assumes "sscanf_value b ''SwapFree: %ld kB'' = Some x"
  shows "matching_formats b = [''SwapFree: %ld kB'']" "scan_line b v = v\<lparr>freeSwapKb := x\<rparr>"
proof -
  from assms have "prefix ''SwapFree:'' (c_str b)"
    by (simp add: sscanf_value_labels labelled_value_prefix)
  from only_SwapFree [OF this] assms
  show "matching_formats b = [''SwapFree: %ld kB'']" "scan_line b v = v\<lparr>freeSwapKb := x\<rparr>"
    by (simp_all add: matching_formats_def scan_line_def sscanf_value_labels)
qed

lemma matched_HugePages_Total:
  assumes "sscanf_value b ''HugePages_Total: %ld'' = Some x"
  shows "matching_formats b = [''HugePages_Total: %ld'']" "scan_line b v = v\<lparr>hugeTlbTotalPages := x\<rparr>"
proof -
  from assms have "prefix ''HugePages_Total:'' (c_str b)"
    by (simp add: sscanf_value_labels labelled_value_prefix)
  from only_HugePages_Total [OF this] assms
  show "matching_formats b = [''HugePages_Total: %ld'']" "scan_line b v = v\<lparr>hugeTlbTotalPages := x\<rparr>"
    by (simp_all add: matching_formats_def scan_line_def sscanf_value_labels)
qed

lemma matched_HugePages_Free:
  assumes "sscanf_value b ''HugePages_Free: %ld'' = Some x"
  shows "matching_formats b = [''HugePages_Free: %ld'']" "scan_line b v = v\<lparr>hugeTlbFreePages := x\<rparr>"
proof -
  from assms have "prefix ''HugePages_Free:'' (c_str b)"
    by (simp add: sscanf_value_labels labelled_value_prefix)
  from only_HugePages_Free [OF this] assms
  show "matching_formats b = [''HugePages_Free: %ld'']" "scan_line b v = v\<lparr>hugeTlbFreePages := x\<rparr>"
    by (simp_all add: matching_formats_def scan_line_def sscanf_value_labels)
qed

lemma matched_Hugepagesize:
  assumes "sscanf_value b ''Hugepagesize: %ld kB'' = Some x"
  shows "matching_formats b = [''Hugepagesize: %ld kB'']" "scan_line b v = v\<lparr>hugeTlbPageSize := x\<rparr>"
proof -
  from assms have "prefix ''Hugepagesize:'' (c_str b)"
    by (simp add: sscanf_value_labels labelled_value_prefix)
  from only_Hugepagesize [OF this] assms
  show "matching_formats b = [''Hugepagesize: %ld kB'']" "scan_line b v = v\<lparr>hugeTlbPageSize := x\<rparr>"
    by (simp_all add: matching_formats_def scan_line_def sscanf_value_labels)
qed

lemma matching_formats_le_1: "length (matching_formats b) \<le> 1"
proof -
  consider (A) x where "sscanf_value b ''MemAvailable: %ld kB'' = Some x"
    | (S) x where "sscanf_value b ''SwapFree: %ld kB'' = Some x"
    | (T) x where "sscanf_value b ''HugePages_Total: %ld'' = Some x"
    | (F) x where "sscanf_value b ''HugePages_Free: %ld'' = Some x"
    | (P) x where "sscanf_value b ''Hugepagesize: %ld kB'' = Some x"
    | (none) "sscanf_value b ''MemAvailable: %ld kB'' = None" "sscanf_value b ''SwapFree: %ld kB'' = None"
        "sscanf_value b ''HugePages_Total: %ld'' = None" "sscanf_value b ''HugePages_Free: %ld'' = None"
        "sscanf_value b ''Hugepagesize: %ld kB'' = None"
    by fastforce
  then show ?thesis
  proof cases
    case A
    then show ?thesis by (simp add: matched_MemAvailable(1))
  next
    case S
    then show ?thesis by (simp add: matched_SwapFree(1))
  next
    case T
    then show ?thesis by (simp add: matched_HugePages_Total(1))
  next
    case F
    then show ?thesis by (simp add: matched_HugePages_Free(1))
  next
    case P
    then show ?thesis by (simp add: matched_Hugepagesize(1))
  next
    case none
    then show ?thesis by (simp add: matching_formats_def)
  qed
qed

lemma label_without_integer:
  assumes "label \<in> {''MemAvailable:'', ''SwapFree:'', ''HugePages_Total:'', ''HugePages_Free:'', ''Hugepagesize:''}"
    and pre: "prefix label (c_str b)"
    and bad: "\<not> starts_with_integer (dropWhile isspace (drop (length label) (c_str b)))"
  shows "matching_formats b = []"
proof -
  from pre bad have own: "labelled_value label (c_str b) = None"
    by (simp add: labelled_value_None_iff)
  from assms(1) have "label = ''MemAvailable:'' \<or> label = ''SwapFree:'' \<or>
      label = ''HugePages_Total:'' \<or> label = ''HugePages_Free:'' \<or> label = ''Hugepagesize:''"
    by simp
  then show ?thesis
  proof (elim disjE)
    assume "label = ''MemAvailable:''"
    with own only_MemAvailable [of "c_str b"] pre show ?thesis
      by (simp add: matching_formats_def sscanf_value_labels)
  next
    assume "label = ''SwapFree:''"
    with own only_SwapFree [of "c_str b"] pre show ?thesis
      by (simp add: matching_formats_def sscanf_value_labels)
  next
    assume "label = ''HugePages_Total:''"
    with own only_HugePages_Total [of "c_str b"] pre show ?thesis
      by (simp add: matching_formats_def sscanf_value_labels)
  next
    assume "label = ''HugePages_Free:''"
    with own only_HugePages_Free [of "c_str b"] pre show ?thesis
      by (simp add: matching_formats_def sscanf_value_labels)
  next
    assume "label = ''Hugepagesize:''"
    with own only_Hugepagesize [of "c_str b"] pre show ?thesis
      by (simp add: matching_formats_def sscanf_value_labels)
  qed
qed

subsection \<open>A source extended after complete lines\<close>

lemma fgets_n_stops:
  "fgets_n n p = (b, r) \<Longrightarrow> r \<noteq> [] \<Longrightarrow> length b = n \<or> (b \<noteq> [] \<and> last b = NL)"
proof (induction n p arbitrary: b r rule: fgets_n.induct)
  case (1 stream)
  then show ?case by simp
next
  case (2 n)
  then show ?case by simp
next
  case (3 n c cs)
  show ?case
  proof (cases "c = NL")
    case True
    with 3 show ?thesis by auto
  next
    case False
    obtain b' r' where br: "fgets_n n cs = (b', r')" by (cases "fgets_n n cs")
    with 3(2) False have eq: "b = c # b'" "r = r'" by simp_all
    with 3(1) [OF False br] 3(3) have "length b' = n \<or> (b' \<noteq> [] \<and> last b' = NL)" by simp
    with eq show ?thesis by auto
  qed
qed

lemma fgets_n_append:
  "fgets_n n p = (b, r) \<Longrightarrow> length b = n \<or> (b \<noteq> [] \<and> last b = NL) \<Longrightarrow>
   fgets_n n (p @ q) = (b, r @ q)"
proof (induction n p arbitrary: b r rule: fgets_n.induct)
  case (1 stream)
  then show ?case by simp
next
  case (2 n)
  then show ?case by simp
next
  case (3 n c cs)
  show ?case
  proof (cases "c = NL")
    case True
    with 3 show ?thesis by auto
  next
    case False
    obtain b' r' where br: "fgets_n n cs = (b', r')" by (cases "fgets_n n cs")
    with 3(2) False have eq: "b = c # b'" "r = r'" by simp_all
    from 3(3) eq False have "length b' = n \<or> (b' \<noteq> [] \<and> last b' = NL)"
      by (cases b') auto
    from 3(1) [OF False br this] have "fgets_n n (cs @ q) = (b', r' @ q)" .
    with eq False show ?thesis by simp
  qed
qed

lemma fgets_append:
  assumes rd: "fgets sizeof_lineBuffer p = Some (b, r)" and nl: "last p = NL"
  shows "fgets sizeof_lineBuffer (p @ q) = Some (b, r @ q)"
proof -
  from rd have p: "p \<noteq> []" and fn: "fgets_n (sizeof_lineBuffer - 1) p = (b, r)"
    by (auto simp: fgets_def split: if_splits)
  from fgets_n_concat [OF fn] have cat: "p = b @ r" .
  have "length b = sizeof_lineBuffer - 1 \<or> (b \<noteq> [] \<and> last b = NL)"
  proof (cases "r = []")
    case True
    with cat p nl show ?thesis by simp
  next
    case False
    with fgets_n_stops [OF fn] show ?thesis by simp
  qed
  from fgets_n_append [OF fn this] p show ?thesis
    by (simp add: fgets_def)
qed

lemma fgets_all_append:
  "p \<noteq> [] \<Longrightarrow> last p = NL \<Longrightarrow> fgets_all (p @ q) = fgets_all p @ fgets_all q"
proof (induction p rule: fgets_all.induct)
  case (1 stream)
  then obtain b r where rd: "fgets sizeof_lineBuffer stream = Some (b, r)"
    by (cases "fgets sizeof_lineBuffer stream") (auto simp: fgets_None)
  from fgets_concat [OF rd] have cat: "stream = b @ r" .
  have app: "fgets_all (stream @ q) = b # fgets_all (r @ q)"
    using fgets_append [OF rd "1.prems"(2)] by (rule fgets_all_Some)
  show ?case
  proof (cases "r = []")
    case True
    with app rd show ?thesis
      by (simp add: fgets_all_Some [OF rd] fgets_all_Nil)
  next
    case False
    with cat "1.prems"(2) have "last r = NL" by simp
    from "1.IH" [OF rd refl False this] app show ?thesis
      by (simp add: fgets_all_Some [OF rd])
  qed
qed

lemma scan_chunks_append:
  "scan_chunks h cs v = (v', rest) \<Longrightarrow> early_exit h v' \<Longrightarrow> cs \<noteq> [] \<Longrightarrow>
   scan_chunks h (cs @ cs') v = (v', rest @ cs')"
proof (induction cs arbitrary: v)
  case Nil
  then show ?case by simp
next
  case (Cons b bs)
  show ?case
  proof (cases "early_exit h (scan_line b v)")
    case True
    with Cons.prems show ?thesis by auto
  next
    case False
    with Cons.prems have rec: "scan_chunks h bs (scan_line b v) = (v', rest)" by simp
    have "bs \<noteq> []"
    proof
      assume "bs = []"
      with rec have "v' = scan_line b v" by simp
      with False Cons.prems(2) show False by simp
    qed
    from Cons.IH [OF rec Cons.prems(2) this] False show ?thesis by simp
  qed
qed

lemma read_loop_append:
  assumes pq: "p \<noteq> []" "last p = NL" and ex: "early_exit h (fst (read_loop h p v))"
  shows "read_loop h (p @ q) v = (fst (read_loop h p v), snd (read_loop h p v) @ q)"
proof -
  obtain v' bs where sc: "scan_chunks h (fgets_all p) v = (v', bs)"
    by (cases "scan_chunks h (fgets_all p) v")
  then have rl: "read_loop h p v = (v', concat bs)"
    by (simp add: read_loop_chunks)
  from pq(1) have ne: "fgets_all p \<noteq> []"
    by (simp add: fgets_all_eq_Nil)
  from ex rl have "early_exit h v'" by simp
  from scan_chunks_append [OF sc this ne, of "fgets_all q"]
  have "read_loop h (p @ q) v = (v', concat bs @ concat (fgets_all q))"
    by (simp add: read_loop_chunks fgets_all_append [OF pq])
  with rl show ?thesis
    by (simp add: concat_fgets_all)
qed

lemma buffers_read_chunks:
  "buffers_read h s v =
     take (length (fgets_all s) - length (snd (scan_chunks h (fgets_all s) v))) (fgets_all s)"
proof -
  obtain v' bs where sc: "scan_chunks h (fgets_all s) v = (v', bs)"
    by (cases "scan_chunks h (fgets_all s) v")
  from scan_chunks_char [OF sc] obtain pre where "fgets_all s = pre @ bs" by blast
  from fgets_all_suffix [OF this] sc show ?thesis
    by (simp add: buffers_read_def read_loop_chunks)
qed

lemma buffers_read_unlines:
  "\<forall>l\<in>set ls. length l \<le> 510 \<and> NL \<notin> set l \<Longrightarrow>
   buffers_read h (unlines ls) v =
     take (length ls - length (snd (scan_chunks h (map (\<lambda>l. l @ [NL]) ls) v))) (map (\<lambda>l. l @ [NL]) ls)"
  by (simp add: buffers_read_chunks fgets_all_unlines)

lemma sint_mult_in_range:
  fixes f p :: long
  assumes "LONG_MIN \<le> sint f * sint p" "sint f * sint p \<le> LONG_MAX"
  shows "sint (f * p) = sint f * sint p"
proof -
  have "sint (f * p) = signed_take_bit 63 (sint f * sint p)"
    by (simp add: sint_word_mult)
  also have "\<dots> = sint f * sint p"
    using assms by (intro signed_take_bit_int_eq_self) (simp_all add: LONG_MIN_def LONG_MAX_def)
  finally show ?thesis .
qed

lemmas eval_last_value = last_value_def List.map_filter_simps

subsection \<open>Values that no line resolves\<close>

lemma last_value_none:
  "\<forall>b\<in>set bs. sscanf_value b fmt = None \<Longrightarrow> last_value fmt bs d = d"
  by (induction bs rule: rev_induct) (simp_all add: last_value_Nil last_value_snoc)

lemma last_value_default:
  "last_value fmt bs d = d \<Longrightarrow>
   (\<forall>b\<in>set bs. sscanf_value b fmt = None) \<or> (\<exists>b\<in>set bs. sscanf_value b fmt = Some d)"
proof (induction bs rule: rev_induct)
  case Nil
  then show ?case by simp
next
  case (snoc b bs)
  then show ?case
    by (cases "sscanf_value b fmt") (auto simp: last_value_snoc)
qed

subsection \<open>Decimal numerals\<close>

lemma dec_unfold:
  "dec n = (if n < 10 then [char_of (48 + n)] else dec (n div 10) @ [char_of (48 + n mod 10)])"
  by (rule dec.simps)

lemma digit_char:
  assumes "d < 10"
  shows "isdigit (char_of (48 + d))" and "digit_val (char_of (48 + d)) = d"
  using assms by (simp_all add: isdigit_def digit_val_def)

lemma dec_digits: "\<forall>c\<in>set (dec n). isdigit c"
proof (induction n rule: dec.induct)
  case (1 n)
  show ?case
  proof (cases "n < 10")
    case True
    then show ?thesis by (subst dec_unfold) (simp add: digit_char)
  next
    case False
    with 1 show ?thesis by (subst dec_unfold) (simp add: digit_char)
  qed
qed

lemma dec_not_Nil: "dec n \<noteq> []"
  by (subst dec_unfold) simp

lemma digits_val_snoc: "digits_val (ds @ [c]) = 10 * digits_val ds + digit_val c"
  by (simp add: digits_val_def)

lemma digits_val_dec: "digits_val (dec n) = n"
proof (induction n rule: dec.induct)
  case (1 n)
  show ?case
  proof (cases "n < 10")
    case True
    then show ?thesis by (subst dec_unfold) (simp add: digits_val_def digit_char)
  next
    case False
    with 1 show ?thesis by (subst dec_unfold) (simp add: digits_val_snoc digit_char)
  qed
qed

lemma isdigit_not_other:
  assumes "isdigit c"
  shows "\<not> isspace c" "c \<noteq> CHR ''-''" "c \<noteq> CHR ''+''" "c \<noteq> NUL" "c \<noteq> NL"
  using assms by (auto simp: isdigit_def isspace_def)

lemma takeWhile_all: "\<forall>c\<in>set xs. P c \<Longrightarrow> rest = [] \<or> \<not> P (hd rest) \<Longrightarrow> takeWhile P (xs @ rest) = xs"
  by (induction xs) (auto simp: takeWhile_eq_Nil_iff)

lemma dropWhile_all: "\<forall>c\<in>set xs. P c \<Longrightarrow> rest = [] \<or> \<not> P (hd rest) \<Longrightarrow> dropWhile P (xs @ rest) = rest"
  by (induction xs) (auto simp: dropWhile_eq_self_iff)

lemma long_of_nat_range:
  assumes "int x \<le> LONG_MAX"
  shows "sint (word_of_nat x :: long) = int x" and "(word_of_nat x :: long) \<noteq> - 1"
proof -
  have "sint (word_of_nat x :: long) = sint (word_of_int (int x) :: long)"
    by simp
  also have "\<dots> = signed_take_bit 63 (int x)"
    by (simp only: sint_sbintrunc') simp
  also have "\<dots> = int x"
    using assms by (intro signed_take_bit_int_eq_self) (simp_all add: LONG_MAX_def)
  finally show s: "sint (word_of_nat x :: long) = int x" .
  show "(word_of_nat x :: long) \<noteq> - 1"
  proof
    assume "(word_of_nat x :: long) = - 1"
    then have "sint (word_of_nat x :: long) = sint (- 1 :: long)" by simp
    with s show False by simp
  qed
qed

lemma scan_ld_dec:
  assumes "rest = [] \<or> \<not> isdigit (hd rest)" and "int x \<le> LONG_MAX"
  shows "scan_ld (dec x @ rest) = Some (word_of_nat x, rest)"
proof -
  obtain c cs where d: "dec x = c # cs"
    using dec_not_Nil [of x] by (cases "dec x") auto
  with dec_digits [of x] have c: "isdigit c" by simp
  have tw: "takeWhile isdigit (dec x @ rest) = dec x"
    using dec_digits assms(1) by (rule takeWhile_all)
  have dw: "dropWhile isdigit (dec x @ rest) = rest"
    using dec_digits assms(1) by (rule dropWhile_all)
  have val: "long_of_digits False (dec x) = word_of_nat x"
    using assms(2) by (simp add: long_of_digits_def digits_val_dec LONG_MIN_def)
  have "scan_ld ((c # cs) @ rest) = Some (long_of_digits False (c # cs), dropWhile isdigit ((c # cs) @ rest))"
    using tw dw isdigit_not_other(2,3) [OF c] dec_not_Nil [of x]
    unfolding d by (simp add: scan_ld_def Let_def del: takeWhile.simps dropWhile.simps takeWhile_append dropWhile_append)
  with val dw show ?thesis
    unfolding d by simp
qed

lemma c_str_id: "NUL \<notin> set b \<Longrightarrow> c_str b = b"
  by (auto simp: c_str_def takeWhile_eq_all_conv)

lemma NUL_notin_line:
  "NUL \<notin> set (mem_line pad x @ [NL])" "NUL \<notin> set (swap_line pad x @ [NL])"
  using dec_digits [of x] by (auto simp: mem_line_def swap_line_def dest: isdigit_not_other(4))

lemma labelled_value_numeral:
  assumes "int x \<le> LONG_MAX" and "rest = [] \<or> \<not> isdigit (hd rest)"
  shows "labelled_value label (label @ replicate pad (CHR '' '') @ dec x @ rest) = Some (word_of_nat x)"
proof -
  obtain c cs where d: "dec x = c # cs"
    using dec_not_Nil [of x] by (cases "dec x") auto
  with dec_digits [of x] have c: "\<not> isspace c" by (simp add: isdigit_not_other)
  have sp: "isspace (CHR '' '')" by (simp add: isspace_def)
  have "dropWhile isspace (replicate pad (CHR '' '') @ dec x @ rest) = dec x @ rest"
    using c sp unfolding d by (induction pad) simp_all
  moreover have "scan_ld (dec x @ rest) = Some (word_of_nat x, rest)"
    using assms(2,1) by (rule scan_ld_dec)
  ultimately show ?thesis
    by (simp add: labelled_value_def)
qed

lemma NUL_notin_lines:
  "NUL \<notin> set (mem_line pad x)" "NUL \<notin> set (swap_line pad x)"
  using dec_digits [of x] by (auto simp: mem_line_def swap_line_def dest: isdigit_not_other(4))

lemma sscanf_value_mem_line:
  assumes "int x \<le> LONG_MAX"
  shows "sscanf_value (mem_line pad x) ''MemAvailable: %ld kB'' = Some (word_of_nat x)"
    and "sscanf_value (mem_line pad x @ [NL]) ''MemAvailable: %ld kB'' = Some (word_of_nat x)"
proof -
  have k: "\<not> isdigit (CHR '' '')" by (simp add: isdigit_def)
  show "sscanf_value (mem_line pad x) ''MemAvailable: %ld kB'' = Some (word_of_nat x)"
    using labelled_value_numeral [OF assms, of "'' kB''" "''MemAvailable:''" pad] k
    by (simp add: sscanf_value_labels c_str_id [OF NUL_notin_lines(1)]) (simp add: mem_line_def)
  show "sscanf_value (mem_line pad x @ [NL]) ''MemAvailable: %ld kB'' = Some (word_of_nat x)"
    using labelled_value_numeral [OF assms, of "'' kB'' @ [NL]" "''MemAvailable:''" pad] k
    by (simp add: sscanf_value_labels c_str_id [OF NUL_notin_line(1)]) (simp add: mem_line_def)
qed

lemma sscanf_value_swap_line:
  assumes "int x \<le> LONG_MAX"
  shows "sscanf_value (swap_line pad x) ''SwapFree: %ld kB'' = Some (word_of_nat x)"
    and "sscanf_value (swap_line pad x @ [NL]) ''SwapFree: %ld kB'' = Some (word_of_nat x)"
proof -
  have k: "\<not> isdigit (CHR '' '')" by (simp add: isdigit_def)
  show "sscanf_value (swap_line pad x) ''SwapFree: %ld kB'' = Some (word_of_nat x)"
    using labelled_value_numeral [OF assms, of "'' kB''" "''SwapFree:''" pad] k
    by (simp add: sscanf_value_labels c_str_id [OF NUL_notin_lines(2)]) (simp add: swap_line_def)
  show "sscanf_value (swap_line pad x @ [NL]) ''SwapFree: %ld kB'' = Some (word_of_nat x)"
    using labelled_value_numeral [OF assms, of "'' kB'' @ [NL]" "''SwapFree:''" pad] k
    by (simp add: sscanf_value_labels c_str_id [OF NUL_notin_line(2)]) (simp add: swap_line_def)
qed

lemma replicate_numeral: "replicate (numeral k) x = x # replicate (pred_numeral k) x"
  by (simp add: numeral_eq_Suc)

lemma fgets_n_short:
  "NL \<notin> set t \<Longrightarrow> length t \<le> n \<Longrightarrow> fgets_n n t = (t, [])"
proof (induction t arbitrary: n)
  case Nil
  then show ?case by (cases n) simp_all
next
  case (Cons a t)
  then obtain m where "n = Suc m" by (cases n) simp_all
  with Cons show ?case by auto
qed

lemma fgets_all_short:
  assumes "NL \<notin> set t" "length t \<le> 510"
  shows "fgets_all t = (if t = [] then [] else [t])"
proof (cases "t = []")
  case True
  then show ?thesis by (simp add: fgets_all_Nil)
next
  case False
  with assms have "fgets sizeof_lineBuffer t = Some (t, [])"
    by (simp add: fgets_def sizeof_lineBuffer_def fgets_n_short)
  from fgets_all_Some [OF this] False show ?thesis
    by (simp add: fgets_all_Nil)
qed

lemma fgets_all_source_text:
  assumes "\<forall>l\<in>set (source_lines ls t). length l \<le> 510 \<and> NL \<notin> set l"
  shows "fgets_all (source_text ls t) = map (\<lambda>l. l @ [NL]) ls @ (if t = [] then [] else [t])"
  using assms
proof (induction ls)
  case Nil
  then show ?case
    by (auto simp: source_text_def source_lines_def unlines_def fgets_all_short split: if_splits)
next
  case (Cons l ls)
  then have l: "NL \<notin> set l" "length l \<le> 510"
    by (auto simp: source_lines_def split: if_splits)
  from Cons.prems have "\<forall>l\<in>set (source_lines ls t). length l \<le> 510 \<and> NL \<notin> set l"
    by (auto simp: source_lines_def split: if_splits)
  from Cons.IH [OF this] fgets_all_line [OF l, of "source_text ls t"] show ?case
    by (simp add: source_text_def unlines_def)
qed

subsection \<open>A line and its buffer\<close>

lemma starts_with_integer_newline:
  "starts_with_integer (dropWhile isspace (t @ [NL])) = starts_with_integer (dropWhile isspace t)"
proof (induction t)
  case Nil
  then show ?case by (simp add: isspace_def starts_with_integer_def)
next
  case (Cons c t)
  have nl: "\<not> isdigit NL" by (simp add: isdigit_def)
  show ?case
  proof (cases "isspace c")
    case True
    with Cons show ?thesis by simp
  next
    case False
    with nl show ?thesis
      by (cases t) (simp_all add: starts_with_integer_def)
  qed
qed

lemma labelled_value_newline:
  assumes "NL \<notin> set label"
  shows "labelled_value label (c_str (l @ [NL])) = None \<longleftrightarrow> labelled_value label (c_str l) = None"
proof (cases "NUL \<in> set l")
  case True
  then have "c_str (l @ [NL]) = c_str l"
    by (auto simp: c_str_def takeWhile_append1 in_set_conv_decomp)
  then show ?thesis by simp
next
  case False
  then have cs: "c_str (l @ [NL]) = l @ [NL]" "c_str l = l"
    by (simp_all add: c_str_id)
  have pre: "prefix label (l @ [NL]) \<longleftrightarrow> prefix label l"
    using assms by (auto simp: prefix_snoc)
  show ?thesis
  proof (cases "prefix label l")
    case True
    then obtain t where t: "l = label @ t" by (auto simp: prefix_def)
    have dr: "drop (length label) (l @ [NL]) = drop (length label) l @ [NL]"
      by (simp add: t)
    from True pre show ?thesis
      by (simp add: cs labelled_value_None_iff dr starts_with_integer_newline del: drop_append)
  next
    case False
    with pre show ?thesis
      by (simp add: cs labelled_value_None_iff)
  qed
qed

lemma sscanf_value_newline:
  "sscanf_value (l @ [NL]) ''MemAvailable: %ld kB'' = None \<longleftrightarrow> sscanf_value l ''MemAvailable: %ld kB'' = None"
  "sscanf_value (l @ [NL]) ''SwapFree: %ld kB'' = None \<longleftrightarrow> sscanf_value l ''SwapFree: %ld kB'' = None"
  "sscanf_value (l @ [NL]) ''HugePages_Total: %ld'' = None \<longleftrightarrow> sscanf_value l ''HugePages_Total: %ld'' = None"
  "sscanf_value (l @ [NL]) ''HugePages_Free: %ld'' = None \<longleftrightarrow> sscanf_value l ''HugePages_Free: %ld'' = None"
  "sscanf_value (l @ [NL]) ''Hugepagesize: %ld kB'' = None \<longleftrightarrow> sscanf_value l ''Hugepagesize: %ld kB'' = None"
  by (simp_all add: sscanf_value_labels labelled_value_newline)

lemma scan_line_first_char:
  assumes "c \<noteq> CHR ''M''" "c \<noteq> CHR ''S''" "c \<noteq> CHR ''H''"
  shows "matching_formats (c # b) = []" and "scan_line (c # b) v = v"
proof -
  show "matching_formats (c # b) = []"
    using assms by (simp add: matching_formats_def sscanf_value_labels labelled_value_def c_str_def)
  then show "scan_line (c # b) v = v"
    by (rule scan_line_unmatched)
qed

lemma mandatory_formats_exclusive:
  "sscanf_value b ''MemAvailable: %ld kB'' = Some x \<Longrightarrow> sscanf_value b ''SwapFree: %ld kB'' = None"
  "sscanf_value b ''SwapFree: %ld kB'' = Some x \<Longrightarrow> sscanf_value b ''MemAvailable: %ld kB'' = None"
  by (simp_all add: sscanf_value_labels only_MemAvailable only_SwapFree labelled_value_prefix)

lemma prefix_Cons_replicate:
  "prefix (c # cs) (replicate n x) \<longleftrightarrow> 0 < n \<and> c = x \<and> prefix cs (replicate (n - 1) x)"
  by (cases n) auto

lemmas eval_line = mem_line_def swap_line_def dec_unfold char_of_def bit_iff_odd replicate_numeral

subsection \<open>Resolved fields and observed lines\<close>

lemma last_value_resolved_iff:
  assumes "\<forall>b\<in>set bs. sscanf_value b fmt \<noteq> Some d"
  shows "last_value fmt bs d \<noteq> d \<longleftrightarrow> observed fmt bs"
proof
  assume ne: "last_value fmt bs d \<noteq> d"
  show "observed fmt bs"
  proof (rule ccontr)
    assume "\<not> observed fmt bs"
    then have "\<forall>b\<in>set bs. sscanf_value b fmt = None"
      by (simp add: observed_def)
    from last_value_none [OF this] ne show False by simp
  qed
next
  assume "observed fmt bs"
  show "last_value fmt bs d \<noteq> d"
  proof
    assume "last_value fmt bs d = d"
    from last_value_default [OF this] assms \<open>observed fmt bs\<close> show False
      by (auto simp: observed_def)
  qed
qed

lemma unmarked_resolved:
  assumes "unmarked bs"
  shows "availableMemoryKb (fold scan_line bs init_vars) \<noteq> - 1 \<longleftrightarrow> observed ''MemAvailable: %ld kB'' bs"
    and "freeSwapKb (fold scan_line bs init_vars) \<noteq> - 1 \<longleftrightarrow> observed ''SwapFree: %ld kB'' bs"
    and "hugeTlbTotalPages (fold scan_line bs init_vars) \<noteq> - 1 \<longleftrightarrow> observed ''HugePages_Total: %ld'' bs"
    and "hugeTlbFreePages (fold scan_line bs init_vars) \<noteq> - 1 \<longleftrightarrow> observed ''HugePages_Free: %ld'' bs"
    and "hugeTlbPageSize (fold scan_line bs init_vars) \<noteq> - 1 \<longleftrightarrow> observed ''Hugepagesize: %ld kB'' bs"
proof -
  have init: "availableMemoryKb init_vars = - 1" "freeSwapKb init_vars = - 1"
    "hugeTlbTotalPages init_vars = - 1" "hugeTlbFreePages init_vars = - 1"
    "hugeTlbPageSize init_vars = - 1"
    by (simp_all add: init_vars_def)
  from assms have m:
    "\<forall>b\<in>set bs. sscanf_value b ''MemAvailable: %ld kB'' \<noteq> Some (- 1)"
    "\<forall>b\<in>set bs. sscanf_value b ''SwapFree: %ld kB'' \<noteq> Some (- 1)"
    "\<forall>b\<in>set bs. sscanf_value b ''HugePages_Total: %ld'' \<noteq> Some (- 1)"
    "\<forall>b\<in>set bs. sscanf_value b ''HugePages_Free: %ld'' \<noteq> Some (- 1)"
    "\<forall>b\<in>set bs. sscanf_value b ''Hugepagesize: %ld kB'' \<noteq> Some (- 1)"
    by (simp_all add: unmarked_def)
  show "availableMemoryKb (fold scan_line bs init_vars) \<noteq> - 1 \<longleftrightarrow> observed ''MemAvailable: %ld kB'' bs"
    using last_value_resolved_iff [OF m(1)] by (simp add: fold_scan_line_fields init)
  show "freeSwapKb (fold scan_line bs init_vars) \<noteq> - 1 \<longleftrightarrow> observed ''SwapFree: %ld kB'' bs"
    using last_value_resolved_iff [OF m(2)] by (simp add: fold_scan_line_fields init)
  show "hugeTlbTotalPages (fold scan_line bs init_vars) \<noteq> - 1 \<longleftrightarrow> observed ''HugePages_Total: %ld'' bs"
    using last_value_resolved_iff [OF m(3)] by (simp add: fold_scan_line_fields init)
  show "hugeTlbFreePages (fold scan_line bs init_vars) \<noteq> - 1 \<longleftrightarrow> observed ''HugePages_Free: %ld'' bs"
    using last_value_resolved_iff [OF m(4)] by (simp add: fold_scan_line_fields init)
  show "hugeTlbPageSize (fold scan_line bs init_vars) \<noteq> - 1 \<longleftrightarrow> observed ''Hugepagesize: %ld kB'' bs"
    using last_value_resolved_iff [OF m(5)] by (simp add: fold_scan_line_fields init)
qed

lemma unmarked_early_exit:
  "unmarked bs \<Longrightarrow>
   early_exit h (fold scan_line bs init_vars) \<longleftrightarrow>
     observed ''MemAvailable: %ld kB'' bs \<and> observed ''SwapFree: %ld kB'' bs \<and>
     (h \<longrightarrow> observed ''HugePages_Total: %ld'' bs \<and> observed ''HugePages_Free: %ld'' bs \<and>
            observed ''Hugepagesize: %ld kB'' bs)"
  using unmarked_resolved [of bs] by (auto simp: early_exit_def)

lemma unmarked_values:
  assumes "unmarked bs"
  shows "last_value ''HugePages_Total: %ld'' bs (- 1) \<noteq> - 1 \<longleftrightarrow> observed ''HugePages_Total: %ld'' bs"
    and "last_value ''HugePages_Free: %ld'' bs (- 1) \<noteq> - 1 \<longleftrightarrow> observed ''HugePages_Free: %ld'' bs"
    and "last_value ''Hugepagesize: %ld kB'' bs (- 1) \<noteq> - 1 \<longleftrightarrow> observed ''Hugepagesize: %ld kB'' bs"
  using assms by (simp_all add: unmarked_def last_value_resolved_iff)

subsection \<open>The value read and the number written\<close>

lemma sint_clamp_long: "sint (word_of_int (clamp_long n) :: long) = clamp_long n"
proof -
  have "sint (word_of_int (clamp_long n) :: long) = signed_take_bit 63 (clamp_long n)"
    by (simp only: sint_sbintrunc') simp
  also have "\<dots> = clamp_long n"
    by (intro signed_take_bit_int_eq_self) (simp_all add: clamp_long_def LONG_MAX_def LONG_MIN_def)
  finally show ?thesis .
qed

lemma clamp_long_sign: "0 \<le> clamp_long n \<longleftrightarrow> 0 \<le> n"
  by (simp add: clamp_long_def LONG_MAX_def LONG_MIN_def)

lemma clamp_long_id: "LONG_MIN \<le> n \<Longrightarrow> n \<le> LONG_MAX \<Longrightarrow> clamp_long n = n"
  by (simp add: clamp_long_def)

lemma scan_ld_numeral:
  "map_option fst (scan_ld s) = map_option (\<lambda>n. word_of_int (clamp_long n)) (scan_numeral s)"
  by (simp add: scan_ld_def scan_numeral_def long_of_digits_def clamp_long_def Let_def)

lemma labelled_value_numeral_eq:
  "labelled_value label s = map_option (\<lambda>n. word_of_int (clamp_long n)) (labelled_numeral label s)"
  by (simp add: labelled_value_def labelled_numeral_def scan_ld_numeral)

lemma labelled_value_sint:
  assumes "labelled_value label s = Some x"
  shows "\<exists>n. labelled_numeral label s = Some n \<and> sint x = clamp_long n"
  using assms by (auto simp: labelled_value_numeral_eq sint_clamp_long)

lemmas eval_numeral =
  labelled_numeral_def scan_numeral_def c_str_def isspace_def isdigit_def digits_val_def digit_val_def

lemma well_formed_value_starts: "well_formed_value s \<Longrightarrow> starts_with_integer s"
proof -
  assume wf: "well_formed_value s"
  have dig: "isdigit d" if "takeWhile isdigit (d # r) \<noteq> []" for d r
    using that by (simp split: if_splits)
  have sign: "\<not> isdigit (CHR ''-'')" "\<not> isdigit (CHR ''+'')"
    by (simp_all add: isdigit_def)
  show ?thesis
  proof (cases s)
    case Nil
    with wf show ?thesis by (simp add: well_formed_value_def)
  next
    case (Cons c cs)
    show ?thesis
    proof (cases "c = CHR ''-'' \<or> c = CHR ''+''")
      case True
      with wf Cons have tw: "takeWhile isdigit cs \<noteq> []"
        by (auto simp: well_formed_value_def Let_def)
      then obtain d r where cs: "cs = d # r" by (cases cs) auto
      with tw dig have "isdigit d" by blast
      with Cons True cs show ?thesis
        by (auto simp: starts_with_integer_def)
    next
      case False
      with wf Cons have "takeWhile isdigit (c # cs) \<noteq> []"
        by (auto simp: well_formed_value_def Let_def)
      with dig have "isdigit c" by blast
      with Cons False show ?thesis
        by (auto simp: starts_with_integer_def)
    qed
  qed
qed

subsection \<open>Lines observed and the end of the loop\<close>

lemma observed_early_exit:
  assumes um: "unmarked (fgets_all p)"
    and ob: "observed ''MemAvailable: %ld kB'' (fgets_all p)" "observed ''SwapFree: %ld kB'' (fgets_all p)"
      "h \<longrightarrow> observed ''HugePages_Total: %ld'' (fgets_all p) \<and> observed ''HugePages_Free: %ld'' (fgets_all p) \<and>
         observed ''Hugepagesize: %ld kB'' (fgets_all p)"
  shows "early_exit h (fst (read_loop h p init_vars))"
proof -
  obtain v unread where rl: "read_loop h p init_vars = (v, unread)"
    by (cases "read_loop h p init_vars")
  show ?thesis
  proof (cases "unread = []")
    case True
    with read_loop_char(1) [OF rl] have "buffers_read h p init_vars = fgets_all p"
      by (simp add: fgets_all_Nil)
    with read_loop_char(2) [OF rl] have "v = fold scan_line (fgets_all p) init_vars"
      by simp
    with unmarked_early_exit [OF um, of h] ob rl show ?thesis
      by simp
  next
    case False
    with read_loop_char(3) [OF rl] rl show ?thesis
      by simp
  qed
qed

section \<open>The properties claimed of the routine\<close>

subsection \<open>Failures before the scan\<close>

text \<open>
  Claim C8. If the statistics source cannot be opened, the call fails at once: it
  returns the error code 1 and leaves the three output objects as they were. This
  holds for a path that names nothing and for a file that is there but not readable,
  whatever its contents: nothing of the source is scanned. (The code has one error
  code, 1, for every failure.)
\<close>

theorem source_unavailable_fails:
  "fopen_r fs ''/proc/meminfo'' = None \<Longrightarrow>
   getAvailableMemory fs availableMemoryKb_ptr freeSwapKb_ptr hugePagesInfoKb_ptr =
     \<lparr>ret = 1, out_availableMemoryKb = availableMemoryKb_ptr,
      out_freeSwapKb = freeSwapKb_ptr, out_hugePagesInfoKb = hugePagesInfoKb_ptr\<rparr>"
  by (simp add: getAvailableMemory_def)

theorem source_unavailable_fails_witness:
  "fopen_r (\<lambda>path. Some \<lparr>readable = False,
        bytes = unlines [''MemAvailable: 5 kB'', ''SwapFree: 3 kB'']\<rparr>) ''/proc/meminfo'' = None \<and>
   getAvailableMemory (\<lambda>path. Some \<lparr>readable = False,
        bytes = unlines [''MemAvailable: 5 kB'', ''SwapFree: 3 kB'']\<rparr>) (Some 7) (Some 8) (Some 9) =
     \<lparr>ret = 1, out_availableMemoryKb = Some 7, out_freeSwapKb = Some 8,
      out_hugePagesInfoKb = Some 9\<rparr>"
proof -
  have closed: "fopen_r (\<lambda>path. Some \<lparr>readable = False,
        bytes = unlines [''MemAvailable: 5 kB'', ''SwapFree: 3 kB'']\<rparr>) ''/proc/meminfo'' = None"
    by (simp add: fopen_r_def)
  from closed source_unavailable_fails [OF closed, of "Some 7" "Some 8" "Some 9"]
  show ?thesis by simp
qed

text \<open>
  Claim C9. If either mandatory output pointer is null, the function returns the error
  code 1 and writes through no output pointer. The result is the same for every state
  of the file system, also one in which the source could be opened: the test comes
  before the call of \<^verbatim>\<open>fopen\<close>.
\<close>

theorem null_pointer_fails:
  "availableMemoryKb_ptr = None \<or> freeSwapKb_ptr = None \<Longrightarrow>
   getAvailableMemory fs availableMemoryKb_ptr freeSwapKb_ptr hugePagesInfoKb_ptr =
     \<lparr>ret = 1, out_availableMemoryKb = availableMemoryKb_ptr,
      out_freeSwapKb = freeSwapKb_ptr, out_hugePagesInfoKb = hugePagesInfoKb_ptr\<rparr>"
  by (auto simp: getAvailableMemory_def)

theorem null_pointer_fails_witness:
  "fopen_r (meminfo_fs (unlines [''MemAvailable: 5 kB'', ''SwapFree: 3 kB''])) ''/proc/meminfo'' =
     Some (unlines [''MemAvailable: 5 kB'', ''SwapFree: 3 kB'']) \<and>
   getAvailableMemory (meminfo_fs (unlines [''MemAvailable: 5 kB'', ''SwapFree: 3 kB'']))
       None (Some 8) (Some 9) =
     \<lparr>ret = 1, out_availableMemoryKb = None, out_freeSwapKb = Some 8,
      out_hugePagesInfoKb = Some 9\<rparr>"
proof -
  have null: "(None :: long option) = None \<or> Some (8 :: long) = None"
    by simp
  have opens: "fopen_r (meminfo_fs (unlines [''MemAvailable: 5 kB'', ''SwapFree: 3 kB''])) ''/proc/meminfo'' =
     Some (unlines [''MemAvailable: 5 kB'', ''SwapFree: 3 kB''])"
    by (simp add: fopen_r_def meminfo_fs_def)
  from opens null_pointer_fails [OF null, of "meminfo_fs (unlines [''MemAvailable: 5 kB'', ''SwapFree: 3 kB''])" "Some 9"]
  show ?thesis by simp
qed

subsection \<open>What a failed call leaves behind\<close>

text \<open>
  Claim C6 says that after a reported failure no report is usable and no partial result
  is returned. The code writes its results through the output pointers while it
  scans, so a call that fails for a missing field has already stored what it found: on
  a source with only a \<^verbatim>\<open>MemAvailable\<close> line the call returns 1 and the first output
  object holds the value of that line.
\<close>

theorem failure_leaves_partial_result:
  "getAvailableMemory (meminfo_fs (unlines [''MemAvailable: 5 kB''])) (Some 0) (Some 0) None =
     \<lparr>ret = 1, out_availableMemoryKb = Some 5, out_freeSwapKb = Some (- 1),
      out_hugePagesInfoKb = None\<rparr>"
  by (simp add: eval_call)

text \<open>
  Claim C6 as amended. A failed call returns 1, its only signal. When a mandatory
  pointer is null or the source cannot be opened, the output objects are untouched.
  When the source was opened, the mandatory output objects have been written and at
  least one of them holds \<open>- 1\<close>, the mark for a missing field; the other may hold a
  value read from the source. The huge-page output, where requested, holds 0.
\<close>

theorem failure_outputs:
  assumes "ret (getAvailableMemory fs a s g) = 1"
  shows "(a = None \<or> s = None \<or> fopen_r fs ''/proc/meminfo'' = None \<longrightarrow>
            out_availableMemoryKb (getAvailableMemory fs a s g) = a \<and>
            out_freeSwapKb (getAvailableMemory fs a s g) = s \<and>
            out_hugePagesInfoKb (getAvailableMemory fs a s g) = g) \<and>
         (a \<noteq> None \<and> s \<noteq> None \<and> fopen_r fs ''/proc/meminfo'' \<noteq> None \<longrightarrow>
            (out_availableMemoryKb (getAvailableMemory fs a s g) = Some (- 1) \<or>
             out_freeSwapKb (getAvailableMemory fs a s g) = Some (- 1)) \<and>
            out_hugePagesInfoKb (getAvailableMemory fs a s g) = (if g = None then None else Some 0))"
proof (cases "a = None \<or> s = None \<or> fopen_r fs ''/proc/meminfo'' = None")
  case True
  then show ?thesis
    by (auto simp: getAvailableMemory_def)
next
  case False
  then obtain a0 s0 content where args: "a = Some a0" "s = Some s0"
    and opened: "fopen_r fs ''/proc/meminfo'' = Some content"
    by auto
  show ?thesis
  proof (cases "availableMemoryKb (fst (read_loop (g \<noteq> None) content init_vars)) = - 1 \<or>
         freeSwapKb (fst (read_loop (g \<noteq> None) content init_vars)) = - 1")
    case True
    with args opened show ?thesis
      by (simp add: getAvailableMemory_opened [OF opened])
  next
    case False
    with assms args show ?thesis
      by (simp add: getAvailableMemory_opened [OF opened])
  qed
qed

theorem failure_outputs_witness:
  "ret (getAvailableMemory (meminfo_fs (unlines [''SwapFree: 3 kB''])) (Some 7) (Some 8) (Some 9)) = 1 \<and>
   fopen_r (meminfo_fs (unlines [''SwapFree: 3 kB''])) ''/proc/meminfo'' \<noteq> None \<and>
   out_availableMemoryKb (getAvailableMemory (meminfo_fs (unlines [''SwapFree: 3 kB''])) (Some 7) (Some 8) (Some 9)) = Some (- 1) \<and>
   out_freeSwapKb (getAvailableMemory (meminfo_fs (unlines [''SwapFree: 3 kB''])) (Some 7) (Some 8) (Some 9)) = Some 3 \<and>
   out_hugePagesInfoKb (getAvailableMemory (meminfo_fs (unlines [''SwapFree: 3 kB''])) (Some 7) (Some 8) (Some 9)) = Some 0 \<and>
   ret (getAvailableMemory (meminfo_fs (unlines [''SwapFree: 3 kB''])) (Some 7) None (Some 9)) = 1 \<and>
   out_availableMemoryKb (getAvailableMemory (meminfo_fs (unlines [''SwapFree: 3 kB''])) (Some 7) None (Some 9)) = Some 7 \<and>
   out_freeSwapKb (getAvailableMemory (meminfo_fs (unlines [''SwapFree: 3 kB''])) (Some 7) None (Some 9)) = None \<and>
   out_hugePagesInfoKb (getAvailableMemory (meminfo_fs (unlines [''SwapFree: 3 kB''])) (Some 7) None (Some 9)) = Some 9"
proof -
  have fails: "ret (getAvailableMemory (meminfo_fs (unlines [''SwapFree: 3 kB''])) (Some 7) (Some 8) (Some 9)) = 1"
    by (simp add: eval_call)
  have swap: "out_freeSwapKb (getAvailableMemory (meminfo_fs (unlines [''SwapFree: 3 kB''])) (Some 7) (Some 8) (Some 9)) = Some 3"
    by (simp add: eval_call)
  have null: "ret (getAvailableMemory (meminfo_fs (unlines [''SwapFree: 3 kB''])) (Some 7) None (Some 9)) = 1"
    by (simp add: getAvailableMemory_def)
  from fails swap null failure_outputs [OF fails] failure_outputs [OF null] show ?thesis
    by (simp add: fopen_r_meminfo_fs)
qed

subsection \<open>The mandatory fields\<close>

text \<open>
  Claim C2 says that a successful call has resolved both mandatory fields to
  non-negative values. The code compares the fields with \<open>- 1\<close> only, and \<^verbatim>\<open>%ld\<close> reads
  a sign: a source with \<^verbatim>\<open>MemAvailable: -5 kB\<close> gives a successful call that reports \<open>- 5\<close>.
\<close>

theorem success_with_negative_field:
  "getAvailableMemory (meminfo_fs (unlines [''MemAvailable: -5 kB'', ''SwapFree: 3 kB''])) (Some 0) (Some 0) None =
     \<lparr>ret = 0, out_availableMemoryKb = Some (- 5), out_freeSwapKb = Some 3,
      out_hugePagesInfoKb = None\<rparr> \<and>
   (- 5 :: long) <s 0"
  by (simp add: eval_call)

text \<open>
  Claim C2 as amended. Every call either fails (returns 1) or succeeds (returns 0) with
  both mandatory outputs written and each different from \<open>- 1\<close>. Each output is the
  value that the field's format reads on a buffer of the source, and it is the number
  written on that buffer after the label cut to the range of \<^verbatim>\<open>long\<close>: it is
  non-negative exactly when the number written is non-negative, and it is the number
  written whenever that number lies between \<open>LONG_MIN\<close> and \<open>LONG_MAX\<close>. So a successful
  call reports a negative value exactly where the line it took the value from carries a
  negative number, which is then not \<open>- 1\<close>. (What the output objects hold after a
  failure is the subject of claim C6.)
\<close>

theorem mandatory_fields_all_or_nothing:
  "ret (getAvailableMemory fs a s g) = 1 \<or>
   (ret (getAvailableMemory fs a s g) = 0 \<and>
    (\<exists>content x y m n.
       fopen_r fs ''/proc/meminfo'' = Some content \<and>
       out_availableMemoryKb (getAvailableMemory fs a s g) = Some x \<and>
       out_freeSwapKb (getAvailableMemory fs a s g) = Some y \<and>
       x \<noteq> - 1 \<and> y \<noteq> - 1 \<and>
       (\<exists>b\<in>set (fgets_all content).
          sscanf_value b ''MemAvailable: %ld kB'' = Some x \<and>
          labelled_numeral ''MemAvailable:'' (c_str b) = Some m) \<and>
       (\<exists>b\<in>set (fgets_all content).
          sscanf_value b ''SwapFree: %ld kB'' = Some y \<and>
          labelled_numeral ''SwapFree:'' (c_str b) = Some n) \<and>
       sint x = clamp_long m \<and> sint y = clamp_long n \<and>
       (0 \<le> sint x \<longleftrightarrow> 0 \<le> m) \<and> (0 \<le> sint y \<longleftrightarrow> 0 \<le> n) \<and>
       (LONG_MIN \<le> m \<and> m \<le> LONG_MAX \<longrightarrow> sint x = m) \<and>
       (LONG_MIN \<le> n \<and> n \<le> LONG_MAX \<longrightarrow> sint y = n)))"
proof (cases "a = None \<or> s = None \<or> fopen_r fs ''/proc/meminfo'' = None")
  case True
  then show ?thesis
    by (auto simp: getAvailableMemory_def)
next
  case False
  then obtain a0 s0 content where args: "a = Some a0" "s = Some s0"
    and opened: "fopen_r fs ''/proc/meminfo'' = Some content"
    by auto
  obtain v unread where rl: "read_loop (g \<noteq> None) content init_vars = (v, unread)"
    by (cases "read_loop (g \<noteq> None) content init_vars")
  let ?pre = "buffers_read (g \<noteq> None) content init_vars"
  show ?thesis
  proof (cases "availableMemoryKb v = - 1 \<or> freeSwapKb v = - 1")
    case True
    with args rl show ?thesis
      by (simp add: getAvailableMemory_opened [OF opened])
  next
    case False
    from False read_loop_fields(1) [OF rl] last_value_cases [of "''MemAvailable: %ld kB''" ?pre "- 1"]
    obtain b where b: "b \<in> set ?pre" "sscanf_value b ''MemAvailable: %ld kB'' = Some (availableMemoryKb v)"
      by auto
    from False read_loop_fields(2) [OF rl] last_value_cases [of "''SwapFree: %ld kB''" ?pre "- 1"]
    obtain c where c: "c \<in> set ?pre" "sscanf_value c ''SwapFree: %ld kB'' = Some (freeSwapKb v)"
      by auto
    from b(2) obtain m where m: "labelled_numeral ''MemAvailable:'' (c_str b) = Some m"
      "sint (availableMemoryKb v) = clamp_long m"
      using labelled_value_sint [of "''MemAvailable:''" "c_str b"] by (auto simp: sscanf_value_labels)
    from c(2) obtain n where n: "labelled_numeral ''SwapFree:'' (c_str c) = Some n"
      "sint (freeSwapKb v) = clamp_long n"
      using labelled_value_sint [of "''SwapFree:''" "c_str c"] by (auto simp: sscanf_value_labels)
    have bin: "b \<in> set (fgets_all content)" and cin: "c \<in> set (fgets_all content)"
      using b(1) c(1) set_buffers_read [of "g \<noteq> None" content init_vars] by auto
    have outs: "ret (getAvailableMemory fs a s g) = 0"
      "out_availableMemoryKb (getAvailableMemory fs a s g) = Some (availableMemoryKb v)"
      "out_freeSwapKb (getAvailableMemory fs a s g) = Some (freeSwapKb v)"
      using False args rl by (simp_all add: getAvailableMemory_opened [OF opened])
    have "\<exists>content x y m n.
       fopen_r fs ''/proc/meminfo'' = Some content \<and>
       out_availableMemoryKb (getAvailableMemory fs a s g) = Some x \<and>
       out_freeSwapKb (getAvailableMemory fs a s g) = Some y \<and>
       x \<noteq> - 1 \<and> y \<noteq> - 1 \<and>
       (\<exists>b\<in>set (fgets_all content).
          sscanf_value b ''MemAvailable: %ld kB'' = Some x \<and>
          labelled_numeral ''MemAvailable:'' (c_str b) = Some m) \<and>
       (\<exists>b\<in>set (fgets_all content).
          sscanf_value b ''SwapFree: %ld kB'' = Some y \<and>
          labelled_numeral ''SwapFree:'' (c_str b) = Some n) \<and>
       sint x = clamp_long m \<and> sint y = clamp_long n \<and>
       (0 \<le> sint x \<longleftrightarrow> 0 \<le> m) \<and> (0 \<le> sint y \<longleftrightarrow> 0 \<le> n) \<and>
       (LONG_MIN \<le> m \<and> m \<le> LONG_MAX \<longrightarrow> sint x = m) \<and>
       (LONG_MIN \<le> n \<and> n \<le> LONG_MAX \<longrightarrow> sint y = n)"
    proof (intro exI conjI)
      show "fopen_r fs ''/proc/meminfo'' = Some content" by (rule opened)
      show "out_availableMemoryKb (getAvailableMemory fs a s g) = Some (availableMemoryKb v)"
        by (rule outs(2))
      show "out_freeSwapKb (getAvailableMemory fs a s g) = Some (freeSwapKb v)"
        by (rule outs(3))
      show "availableMemoryKb v \<noteq> - 1" "freeSwapKb v \<noteq> - 1"
        using False by simp_all
      show "\<exists>b\<in>set (fgets_all content).
          sscanf_value b ''MemAvailable: %ld kB'' = Some (availableMemoryKb v) \<and>
          labelled_numeral ''MemAvailable:'' (c_str b) = Some m"
        using bin b(2) m(1) by blast
      show "\<exists>b\<in>set (fgets_all content).
          sscanf_value b ''SwapFree: %ld kB'' = Some (freeSwapKb v) \<and>
          labelled_numeral ''SwapFree:'' (c_str b) = Some n"
        using cin c(2) n(1) by blast
      show "sint (availableMemoryKb v) = clamp_long m" by (rule m(2))
      show "sint (freeSwapKb v) = clamp_long n" by (rule n(2))
      show "0 \<le> sint (availableMemoryKb v) \<longleftrightarrow> 0 \<le> m"
        by (simp add: m(2) clamp_long_sign)
      show "0 \<le> sint (freeSwapKb v) \<longleftrightarrow> 0 \<le> n"
        by (simp add: n(2) clamp_long_sign)
      show "LONG_MIN \<le> m \<and> m \<le> LONG_MAX \<longrightarrow> sint (availableMemoryKb v) = m"
        by (simp add: m(2) clamp_long_id)
      show "LONG_MIN \<le> n \<and> n \<le> LONG_MAX \<longrightarrow> sint (freeSwapKb v) = n"
        by (simp add: n(2) clamp_long_id)
    qed
    with outs(1) show ?thesis by blast
  qed
qed

theorem mandatory_fields_all_or_nothing_witness:
  "ret (getAvailableMemory (meminfo_fs (unlines [''MemAvailable: 5 kB'', ''SwapFree: 3 kB''])) (Some 7) (Some 8) None) = 0 \<and>
   out_availableMemoryKb (getAvailableMemory (meminfo_fs (unlines [''MemAvailable: 5 kB'', ''SwapFree: 3 kB''])) (Some 7) (Some 8) None) = Some 5 \<and>
   out_freeSwapKb (getAvailableMemory (meminfo_fs (unlines [''MemAvailable: 5 kB'', ''SwapFree: 3 kB''])) (Some 7) (Some 8) None) = Some 3 \<and>
   (5 :: long) \<noteq> - 1 \<and> (3 :: long) \<noteq> - 1 \<and>
   labelled_numeral ''MemAvailable:'' (c_str (''MemAvailable: 5 kB'' @ [NL])) = Some 5 \<and>
   labelled_numeral ''SwapFree:'' (c_str (''SwapFree: 3 kB'' @ [NL])) = Some 3 \<and>
   sint (5 :: long) = clamp_long 5 \<and> sint (3 :: long) = clamp_long 3 \<and>
   0 \<le> sint (5 :: long) \<and> 0 \<le> sint (3 :: long) \<and>
   ret (getAvailableMemory (meminfo_fs (unlines [''MemAvailable: -5 kB'', ''SwapFree: 3 kB''])) (Some 7) (Some 8) None) = 0 \<and>
   out_availableMemoryKb (getAvailableMemory (meminfo_fs (unlines [''MemAvailable: -5 kB'', ''SwapFree: 3 kB''])) (Some 7) (Some 8) None) = Some (- 5) \<and>
   labelled_numeral ''MemAvailable:'' (c_str (''MemAvailable: -5 kB'' @ [NL])) = Some (- 5) \<and>
   sint (- 5 :: long) = - 5"
proof -
  let ?c = "unlines [''MemAvailable: 5 kB'', ''SwapFree: 3 kB'']"
  let ?d = "unlines [''MemAvailable: -5 kB'', ''SwapFree: 3 kB'']"
  have r: "getAvailableMemory (meminfo_fs ?c) (Some 7) (Some 8) None =
      \<lparr>ret = 0, out_availableMemoryKb = Some 5, out_freeSwapKb = Some 3, out_hugePagesInfoKb = None\<rparr>"
    by (simp add: eval_call)
  have r': "getAvailableMemory (meminfo_fs ?d) (Some 7) (Some 8) None =
      \<lparr>ret = 0, out_availableMemoryKb = Some (- 5), out_freeSwapKb = Some 3, out_hugePagesInfoKb = None\<rparr>"
    by (simp add: eval_call)
  have nums: "labelled_numeral ''MemAvailable:'' (c_str (''MemAvailable: 5 kB'' @ [NL])) = Some 5"
    "labelled_numeral ''SwapFree:'' (c_str (''SwapFree: 3 kB'' @ [NL])) = Some 3"
    "labelled_numeral ''MemAvailable:'' (c_str (''MemAvailable: -5 kB'' @ [NL])) = Some (- 5)"
    by (simp_all add: eval_numeral)
  have cl: "clamp_long 5 = 5" "clamp_long 3 = 3"
    by (simp_all add: clamp_long_def LONG_MAX_def LONG_MIN_def)
  from mandatory_fields_all_or_nothing [of "meminfo_fs ?c" "Some 7" "Some 8" None]
    mandatory_fields_all_or_nothing [of "meminfo_fs ?d" "Some 7" "Some 8" None] r r' nums cl
  show ?thesis
    by simp
qed

subsection \<open>Matching one line\<close>

text \<open>
  Claim C7 says that a line whose label matches but whose value portion is not a
  well-formed integer does not update the field. The code reads the value with \<^verbatim>\<open>%ld\<close>,
  which takes an optional sign and the digits after it and does not look at what
  follows them. On the line \<^verbatim>\<open>MemAvailable: 12abc\<close> the value portion \<^verbatim>\<open>12abc\<close> is not
  an integer followed by nothing or by \<^verbatim>\<open> kB\<close>, yet the format succeeds and the line sets
  the field to 12, where a line without the label leaves it at \<open>- 1\<close>; a call on this
  line and a \<^verbatim>\<open>SwapFree\<close> line succeeds and reports 12, where the call with a line without
  the label in its place fails.
\<close>

theorem ill_formed_value_updates_field:
  "prefix ''MemAvailable:'' (c_str (''MemAvailable: 12abc'' @ [NL])) \<and>
   dropWhile isspace (drop (length ''MemAvailable:'') (c_str (''MemAvailable: 12abc'' @ [NL]))) = ''12abc'' @ [NL] \<and>
   \<not> well_formed_value (''12abc'' @ [NL]) \<and>
   sscanf_value (''MemAvailable: 12abc'' @ [NL]) ''MemAvailable: %ld kB'' = Some 12 \<and>
   scan_line (''MemAvailable: 12abc'' @ [NL]) init_vars = init_vars\<lparr>availableMemoryKb := 12\<rparr> \<and>
   scan_line ''Cached: 12 kB'' init_vars = init_vars \<and>
   availableMemoryKb init_vars = - 1 \<and>
   getAvailableMemory (meminfo_fs (unlines [''MemAvailable: 12abc'', ''SwapFree: 3 kB''])) (Some 0) (Some 0) None =
     \<lparr>ret = 0, out_availableMemoryKb = Some 12, out_freeSwapKb = Some 3, out_hugePagesInfoKb = None\<rparr> \<and>
   getAvailableMemory (meminfo_fs (unlines [''Cached: 12 kB'', ''SwapFree: 3 kB''])) (Some 0) (Some 0) None =
     \<lparr>ret = 1, out_availableMemoryKb = Some (- 1), out_freeSwapKb = Some 3, out_hugePagesInfoKb = None\<rparr>"
proof -
  have v: "prefix ''MemAvailable:'' (c_str (''MemAvailable: 12abc'' @ [NL]))"
    "dropWhile isspace (drop (length ''MemAvailable:'') (c_str (''MemAvailable: 12abc'' @ [NL]))) = ''12abc'' @ [NL]"
    by (simp_all add: c_str_def isspace_def)
  have nwf: "\<not> well_formed_value (''12abc'' @ [NL])"
    by (simp add: well_formed_value_def isdigit_def isspace_def)
  have sc: "sscanf_value (''MemAvailable: 12abc'' @ [NL]) ''MemAvailable: %ld kB'' = Some 12"
    "scan_line (''MemAvailable: 12abc'' @ [NL]) init_vars = init_vars\<lparr>availableMemoryKb := 12\<rparr>"
    "scan_line ''Cached: 12 kB'' init_vars = init_vars"
    "availableMemoryKb init_vars = - 1"
    by (simp_all add: eval_buffer)
  have c1: "getAvailableMemory (meminfo_fs (unlines [''MemAvailable: 12abc'', ''SwapFree: 3 kB''])) (Some 0) (Some 0) None =
     \<lparr>ret = 0, out_availableMemoryKb = Some 12, out_freeSwapKb = Some 3, out_hugePagesInfoKb = None\<rparr>"
    by (simp add: eval_call)
  have c2: "getAvailableMemory (meminfo_fs (unlines [''Cached: 12 kB'', ''SwapFree: 3 kB''])) (Some 0) (Some 0) None =
     \<lparr>ret = 1, out_availableMemoryKb = Some (- 1), out_freeSwapKb = Some 3, out_hugePagesInfoKb = None\<rparr>"
    by (simp add: eval_call)
  from v nwf sc c1 c2 show ?thesis
    by simp
qed

text \<open>
  Claim C7 as amended. A scanned line is a buffer that \<^verbatim>\<open>fgets\<close> returned. At most one
  of the five formats succeeds on it. When none does, the line leaves every variable as
  it was. A format succeeds exactly when the line begins with its label and what follows
  the label, after white space, begins with an integer (an optional sign and a digit);
  so when the line begins with one of the five labels and no integer begins there, no
  format succeeds and the line changes nothing. When a format succeeds, the line assigns
  the value read to that format's variable and changes no other; the characters after
  the digits are not looked at, so that \<^verbatim>\<open>MemAvailable: 12abc\<close> assigns 12. Every
  well-formed value begins with an integer.
\<close>

theorem line_matches_at_most_one_format:
  "length (matching_formats b) \<le> 1 \<and>
   (matching_formats b = [] \<longrightarrow> scan_line b v = v) \<and>
   (\<forall>label\<in>{''MemAvailable:'', ''SwapFree:'', ''HugePages_Total:'', ''HugePages_Free:'', ''Hugepagesize:''}.
      prefix label (c_str b) \<and>
      \<not> starts_with_integer (dropWhile isspace (drop (length label) (c_str b))) \<longrightarrow>
      matching_formats b = [] \<and> scan_line b v = v) \<and>
   (\<forall>x. sscanf_value b ''MemAvailable: %ld kB'' = Some x \<longrightarrow> scan_line b v = v\<lparr>availableMemoryKb := x\<rparr>) \<and>
   (\<forall>x. sscanf_value b ''SwapFree: %ld kB'' = Some x \<longrightarrow> scan_line b v = v\<lparr>freeSwapKb := x\<rparr>) \<and>
   (\<forall>x. sscanf_value b ''HugePages_Total: %ld'' = Some x \<longrightarrow> scan_line b v = v\<lparr>hugeTlbTotalPages := x\<rparr>) \<and>
   (\<forall>x. sscanf_value b ''HugePages_Free: %ld'' = Some x \<longrightarrow> scan_line b v = v\<lparr>hugeTlbFreePages := x\<rparr>) \<and>
   (\<forall>x. sscanf_value b ''Hugepagesize: %ld kB'' = Some x \<longrightarrow> scan_line b v = v\<lparr>hugeTlbPageSize := x\<rparr>) \<and>
   (sscanf_value b ''MemAvailable: %ld kB'' \<noteq> None \<longleftrightarrow>
      prefix ''MemAvailable:'' (c_str b) \<and>
      starts_with_integer (dropWhile isspace (drop (length ''MemAvailable:'') (c_str b)))) \<and>
   (sscanf_value b ''SwapFree: %ld kB'' \<noteq> None \<longleftrightarrow>
      prefix ''SwapFree:'' (c_str b) \<and>
      starts_with_integer (dropWhile isspace (drop (length ''SwapFree:'') (c_str b)))) \<and>
   (sscanf_value b ''HugePages_Total: %ld'' \<noteq> None \<longleftrightarrow>
      prefix ''HugePages_Total:'' (c_str b) \<and>
      starts_with_integer (dropWhile isspace (drop (length ''HugePages_Total:'') (c_str b)))) \<and>
   (sscanf_value b ''HugePages_Free: %ld'' \<noteq> None \<longleftrightarrow>
      prefix ''HugePages_Free:'' (c_str b) \<and>
      starts_with_integer (dropWhile isspace (drop (length ''HugePages_Free:'') (c_str b)))) \<and>
   (sscanf_value b ''Hugepagesize: %ld kB'' \<noteq> None \<longleftrightarrow>
      prefix ''Hugepagesize:'' (c_str b) \<and>
      starts_with_integer (dropWhile isspace (drop (length ''Hugepagesize:'') (c_str b)))) \<and>
   (well_formed_value s \<longrightarrow> starts_with_integer s)"
proof (intro conjI ballI allI impI)
  show "length (matching_formats b) \<le> 1"
    by (rule matching_formats_le_1)
  show "scan_line b v = v" if "matching_formats b = []"
    using that by (rule scan_line_unmatched)
  fix label
  assume "label \<in> {''MemAvailable:'', ''SwapFree:'', ''HugePages_Total:'', ''HugePages_Free:'', ''Hugepagesize:''}"
    and "prefix label (c_str b) \<and>
      \<not> starts_with_integer (dropWhile isspace (drop (length label) (c_str b)))"
  then show none: "matching_formats b = []"
    by (simp add: label_without_integer)
  then show "scan_line b v = v"
    by (rule scan_line_unmatched)
next
  fix x
  show "scan_line b v = v\<lparr>availableMemoryKb := x\<rparr>" if "sscanf_value b ''MemAvailable: %ld kB'' = Some x"
    using that by (rule matched_MemAvailable(2))
  show "scan_line b v = v\<lparr>freeSwapKb := x\<rparr>" if "sscanf_value b ''SwapFree: %ld kB'' = Some x"
    using that by (rule matched_SwapFree(2))
  show "scan_line b v = v\<lparr>hugeTlbTotalPages := x\<rparr>" if "sscanf_value b ''HugePages_Total: %ld'' = Some x"
    using that by (rule matched_HugePages_Total(2))
  show "scan_line b v = v\<lparr>hugeTlbFreePages := x\<rparr>" if "sscanf_value b ''HugePages_Free: %ld'' = Some x"
    using that by (rule matched_HugePages_Free(2))
  show "scan_line b v = v\<lparr>hugeTlbPageSize := x\<rparr>" if "sscanf_value b ''Hugepagesize: %ld kB'' = Some x"
    using that by (rule matched_Hugepagesize(2))
next
  show "sscanf_value b ''MemAvailable: %ld kB'' \<noteq> None \<longleftrightarrow>
      prefix ''MemAvailable:'' (c_str b) \<and>
      starts_with_integer (dropWhile isspace (drop (length ''MemAvailable:'') (c_str b)))"
    using labelled_value_None_iff [of "''MemAvailable:''" "c_str b"]
    by (simp only: sscanf_value_labels) blast
  show "sscanf_value b ''SwapFree: %ld kB'' \<noteq> None \<longleftrightarrow>
      prefix ''SwapFree:'' (c_str b) \<and>
      starts_with_integer (dropWhile isspace (drop (length ''SwapFree:'') (c_str b)))"
    using labelled_value_None_iff [of "''SwapFree:''" "c_str b"]
    by (simp only: sscanf_value_labels) blast
  show "sscanf_value b ''HugePages_Total: %ld'' \<noteq> None \<longleftrightarrow>
      prefix ''HugePages_Total:'' (c_str b) \<and>
      starts_with_integer (dropWhile isspace (drop (length ''HugePages_Total:'') (c_str b)))"
    using labelled_value_None_iff [of "''HugePages_Total:''" "c_str b"]
    by (simp only: sscanf_value_labels) blast
  show "sscanf_value b ''HugePages_Free: %ld'' \<noteq> None \<longleftrightarrow>
      prefix ''HugePages_Free:'' (c_str b) \<and>
      starts_with_integer (dropWhile isspace (drop (length ''HugePages_Free:'') (c_str b)))"
    using labelled_value_None_iff [of "''HugePages_Free:''" "c_str b"]
    by (simp only: sscanf_value_labels) blast
  show "sscanf_value b ''Hugepagesize: %ld kB'' \<noteq> None \<longleftrightarrow>
      prefix ''Hugepagesize:'' (c_str b) \<and>
      starts_with_integer (dropWhile isspace (drop (length ''Hugepagesize:'') (c_str b)))"
    using labelled_value_None_iff [of "''Hugepagesize:''" "c_str b"]
    by (simp only: sscanf_value_labels) blast
next
  assume "well_formed_value s"
  then show "starts_with_integer s"
    by (rule well_formed_value_starts)
qed

theorem line_matches_at_most_one_format_witness:
  "matching_formats ''Cached: 1 kB'' = [] \<and>
   scan_line ''Cached: 1 kB'' init_vars = init_vars \<and>
   prefix ''MemAvailable:'' (c_str ''MemAvailable: many kB'') \<and>
   \<not> starts_with_integer (dropWhile isspace (drop (length ''MemAvailable:'') (c_str ''MemAvailable: many kB''))) \<and>
   scan_line ''MemAvailable: many kB'' init_vars = init_vars \<and>
   sscanf_value ''MemAvailable: 12abc'' ''MemAvailable: %ld kB'' = Some 12 \<and>
   scan_line ''MemAvailable: 12abc'' init_vars = init_vars\<lparr>availableMemoryKb := 12\<rparr> \<and>
   sscanf_value ''SwapFree: 7 kB'' ''SwapFree: %ld kB'' = Some 7 \<and>
   scan_line ''SwapFree: 7 kB'' init_vars = init_vars\<lparr>freeSwapKb := 7\<rparr> \<and>
   sscanf_value ''HugePages_Total:      4'' ''HugePages_Total: %ld'' = Some 4 \<and>
   scan_line ''HugePages_Total:      4'' init_vars = init_vars\<lparr>hugeTlbTotalPages := 4\<rparr> \<and>
   sscanf_value ''HugePages_Free:       2'' ''HugePages_Free: %ld'' = Some 2 \<and>
   scan_line ''HugePages_Free:       2'' init_vars = init_vars\<lparr>hugeTlbFreePages := 2\<rparr> \<and>
   sscanf_value ''Hugepagesize:      2048 kB'' ''Hugepagesize: %ld kB'' = Some 2048 \<and>
   scan_line ''Hugepagesize:      2048 kB'' init_vars = init_vars\<lparr>hugeTlbPageSize := 2048\<rparr> \<and>
   prefix ''MemAvailable:'' (c_str ''MemAvailable: 12abc'') \<and>
   starts_with_integer (dropWhile isspace (drop (length ''MemAvailable:'') (c_str ''MemAvailable: 12abc''))) \<and>
   well_formed_value ''2048 kB'' \<and>
   starts_with_integer ''2048 kB''"
proof -
  have none: "matching_formats ''Cached: 1 kB'' = []"
    by (simp add: matching_formats_def eval_buffer)
  have label: "''MemAvailable:'' \<in> {''MemAvailable:'', ''SwapFree:'', ''HugePages_Total:'', ''HugePages_Free:'', ''Hugepagesize:''}"
    by simp
  have bad: "prefix ''MemAvailable:'' (c_str ''MemAvailable: many kB'') \<and>
     \<not> starts_with_integer (dropWhile isspace (drop (length ''MemAvailable:'') (c_str ''MemAvailable: many kB'')))"
    by (simp add: c_str_def starts_with_integer_def isspace_def isdigit_def)
  have mem: "sscanf_value ''MemAvailable: 12abc'' ''MemAvailable: %ld kB'' = Some 12"
    by (simp add: eval_buffer)
  have swap: "sscanf_value ''SwapFree: 7 kB'' ''SwapFree: %ld kB'' = Some 7"
    by (simp add: eval_buffer)
  have total: "sscanf_value ''HugePages_Total:      4'' ''HugePages_Total: %ld'' = Some 4"
    by (simp add: eval_buffer)
  have free: "sscanf_value ''HugePages_Free:       2'' ''HugePages_Free: %ld'' = Some 2"
    by (simp add: eval_buffer)
  have size: "sscanf_value ''Hugepagesize:      2048 kB'' ''Hugepagesize: %ld kB'' = Some 2048"
    by (simp add: eval_buffer)
  have c1: "scan_line ''Cached: 1 kB'' init_vars = init_vars"
    using none line_matches_at_most_one_format [of "''Cached: 1 kB''" init_vars "[]"] by simp
  have c2: "scan_line ''MemAvailable: many kB'' init_vars = init_vars"
    using label bad line_matches_at_most_one_format [of "''MemAvailable: many kB''" init_vars "[]"]
    by (elim conjE) (drule bspec [OF _ label], simp)
  have c3: "scan_line ''MemAvailable: 12abc'' init_vars = init_vars\<lparr>availableMemoryKb := 12\<rparr>"
    using mem line_matches_at_most_one_format [of "''MemAvailable: 12abc''" init_vars "[]"] by simp
  have c4: "scan_line ''SwapFree: 7 kB'' init_vars = init_vars\<lparr>freeSwapKb := 7\<rparr>"
    using swap line_matches_at_most_one_format [of "''SwapFree: 7 kB''" init_vars "[]"] by simp
  have c5: "scan_line ''HugePages_Total:      4'' init_vars = init_vars\<lparr>hugeTlbTotalPages := 4\<rparr>"
    using total line_matches_at_most_one_format [of "''HugePages_Total:      4''" init_vars "[]"] by simp
  have c6: "scan_line ''HugePages_Free:       2'' init_vars = init_vars\<lparr>hugeTlbFreePages := 2\<rparr>"
    using free line_matches_at_most_one_format [of "''HugePages_Free:       2''" init_vars "[]"] by simp
  have c7: "scan_line ''Hugepagesize:      2048 kB'' init_vars = init_vars\<lparr>hugeTlbPageSize := 2048\<rparr>"
    using size line_matches_at_most_one_format [of "''Hugepagesize:      2048 kB''" init_vars "[]"] by simp
  have c8: "prefix ''MemAvailable:'' (c_str ''MemAvailable: 12abc'') \<and>
     starts_with_integer (dropWhile isspace (drop (length ''MemAvailable:'') (c_str ''MemAvailable: 12abc'')))"
    using mem line_matches_at_most_one_format [of "''MemAvailable: 12abc''" init_vars "[]"] by simp
  have wf: "well_formed_value ''2048 kB''"
    by (simp add: well_formed_value_def isdigit_def isspace_def)
  have c9: "starts_with_integer ''2048 kB''"
    using wf line_matches_at_most_one_format [of "[]" init_vars "''2048 kB''"] by blast
  from none bad mem swap total free size c1 c2 c3 c4 c5 c6 c7 c8 wf c9 show ?thesis
    by simp
qed

subsection \<open>Where the scan stops\<close>

text \<open>
  Claim C5 says that the scan stops once both mandatory fields have been resolved and
  that, when huge pages are not requested, the result does not depend on any line after
  the one at which both became resolved. The code keeps no record of the lines it has
  matched: it takes a field as resolved when its variable differs from \<open>- 1\<close>. On the
  source \<^verbatim>\<open>MemAvailable: -1 kB\<close>, \<^verbatim>\<open>SwapFree: 3 kB\<close> both mandatory formats have succeeded
  after the second line. The call on these two lines fails; with the line
  \<^verbatim>\<open>MemAvailable: 7 kB\<close> added after them the loop reads the third line too, and the call
  succeeds and reports 7.
\<close>

theorem scan_continues_past_mandatory_lines:
  "sscanf_value (''MemAvailable: -1 kB'' @ [NL]) ''MemAvailable: %ld kB'' = Some (- 1) \<and>
   sscanf_value (''SwapFree: 3 kB'' @ [NL]) ''SwapFree: %ld kB'' = Some 3 \<and>
   getAvailableMemory (meminfo_fs (unlines [''MemAvailable: -1 kB'', ''SwapFree: 3 kB''])) (Some 0) (Some 0) None =
     \<lparr>ret = 1, out_availableMemoryKb = Some (- 1), out_freeSwapKb = Some 3, out_hugePagesInfoKb = None\<rparr> \<and>
   buffers_read False (unlines [''MemAvailable: -1 kB'', ''SwapFree: 3 kB'', ''MemAvailable: 7 kB'']) init_vars =
     [''MemAvailable: -1 kB'' @ [NL], ''SwapFree: 3 kB'' @ [NL], ''MemAvailable: 7 kB'' @ [NL]] \<and>
   getAvailableMemory (meminfo_fs (unlines [''MemAvailable: -1 kB'', ''SwapFree: 3 kB'', ''MemAvailable: 7 kB'']))
       (Some 0) (Some 0) None =
     \<lparr>ret = 0, out_availableMemoryKb = Some 7, out_freeSwapKb = Some 3, out_hugePagesInfoKb = None\<rparr>"
proof -
  have sc: "sscanf_value (''MemAvailable: -1 kB'' @ [NL]) ''MemAvailable: %ld kB'' = Some (- 1)"
    "sscanf_value (''SwapFree: 3 kB'' @ [NL]) ''SwapFree: %ld kB'' = Some 3"
    by (simp_all add: eval_buffer)
  have c1: "getAvailableMemory (meminfo_fs (unlines [''MemAvailable: -1 kB'', ''SwapFree: 3 kB''])) (Some 0) (Some 0) None =
     \<lparr>ret = 1, out_availableMemoryKb = Some (- 1), out_freeSwapKb = Some 3, out_hugePagesInfoKb = None\<rparr>"
    by (simp add: eval_call)
  have br: "buffers_read False (unlines [''MemAvailable: -1 kB'', ''SwapFree: 3 kB'', ''MemAvailable: 7 kB'']) init_vars =
     [''MemAvailable: -1 kB'' @ [NL], ''SwapFree: 3 kB'' @ [NL], ''MemAvailable: 7 kB'' @ [NL]]"
    by (simp add: buffers_read_unlines eval_buffer)
  have c2: "getAvailableMemory (meminfo_fs (unlines [''MemAvailable: -1 kB'', ''SwapFree: 3 kB'', ''MemAvailable: 7 kB'']))
       (Some 0) (Some 0) None =
     \<lparr>ret = 0, out_availableMemoryKb = Some 7, out_freeSwapKb = Some 3, out_hugePagesInfoKb = None\<rparr>"
    by (simp add: eval_call)
  from sc c1 br c2 show ?thesis
    by simp
qed

text \<open>
  Claim C5 as amended. A field is resolved when its variable differs from \<open>- 1\<close>. The
  loop reads buffers until, after some buffer, both mandatory fields are resolved and
  either huge pages are not requested or all three huge-page fields are resolved too; or
  until the source ends. In the theorem: the variables at the end are those after the
  buffers read; if anything is left unread the condition holds at the end; and it holds
  after no shorter non-empty run of the buffers read. So a source that is extended after
  complete lines on which the loop has stopped is scanned the same way, with the
  extension left unread; in particular, when huge pages are not requested, a call on
  the extended source returns what the call on the shorter one returns, whatever the
  added lines are. Where no buffer carries the value \<open>- 1\<close>, a field is resolved after
  some buffers exactly when its format has succeeded on one of them. Hence, for complete
  lines none of which carries the value \<open>- 1\<close> and among which both mandatory lines
  occur (and the three huge-page lines, when huge pages are requested), the loop on
  these lines followed by anything ends as the loop on these lines alone, with what
  follows left unread; and when huge pages are not requested the call succeeds and
  returns what the call on these lines alone returns.
\<close>

theorem early_exit_bounds_scan:
  "(read_loop h stream v0 = (v, unread) \<longrightarrow>
      fgets_all stream = buffers_read h stream v0 @ fgets_all unread \<and>
      v = fold scan_line (buffers_read h stream v0) v0 \<and>
      (unread = [] \<or>
       (availableMemoryKb v \<noteq> - 1 \<and> freeSwapKb v \<noteq> - 1 \<and>
        (h \<longrightarrow> hugeTlbTotalPages v \<noteq> - 1 \<and> hugeTlbFreePages v \<noteq> - 1 \<and> hugeTlbPageSize v \<noteq> - 1))) \<and>
      (\<forall>k. 0 < k \<and> k < length (buffers_read h stream v0) \<longrightarrow>
         \<not> early_exit h (fold scan_line (take k (buffers_read h stream v0)) v0))) \<and>
   (p \<noteq> [] \<and> last p = NL \<and> early_exit h (fst (read_loop h p v0)) \<longrightarrow>
      read_loop h (p @ q) v0 = (fst (read_loop h p v0), snd (read_loop h p v0) @ q)) \<and>
   (p \<noteq> [] \<and> last p = NL \<and>
    availableMemoryKb (fst (read_loop False p init_vars)) \<noteq> - 1 \<and>
    freeSwapKb (fst (read_loop False p init_vars)) \<noteq> - 1 \<and>
    fopen_r fs ''/proc/meminfo'' = Some (p @ q) \<and> fopen_r fs' ''/proc/meminfo'' = Some p \<longrightarrow>
      getAvailableMemory fs (Some a0) (Some s0) None = getAvailableMemory fs' (Some a0) (Some s0) None) \<and>
   (unmarked bs \<longrightarrow>
      (early_exit h (fold scan_line bs init_vars) \<longleftrightarrow>
         observed ''MemAvailable: %ld kB'' bs \<and> observed ''SwapFree: %ld kB'' bs \<and>
         (h \<longrightarrow> observed ''HugePages_Total: %ld'' bs \<and> observed ''HugePages_Free: %ld'' bs \<and>
                observed ''Hugepagesize: %ld kB'' bs))) \<and>
   (p \<noteq> [] \<and> last p = NL \<and> unmarked (fgets_all p) \<and>
    observed ''MemAvailable: %ld kB'' (fgets_all p) \<and> observed ''SwapFree: %ld kB'' (fgets_all p) \<and>
    (h \<longrightarrow> observed ''HugePages_Total: %ld'' (fgets_all p) \<and> observed ''HugePages_Free: %ld'' (fgets_all p) \<and>
           observed ''Hugepagesize: %ld kB'' (fgets_all p)) \<longrightarrow>
      read_loop h (p @ q) init_vars = (fst (read_loop h p init_vars), snd (read_loop h p init_vars) @ q)) \<and>
   (p \<noteq> [] \<and> last p = NL \<and> unmarked (fgets_all p) \<and>
    observed ''MemAvailable: %ld kB'' (fgets_all p) \<and> observed ''SwapFree: %ld kB'' (fgets_all p) \<and>
    fopen_r fs ''/proc/meminfo'' = Some (p @ q) \<and> fopen_r fs' ''/proc/meminfo'' = Some p \<longrightarrow>
      getAvailableMemory fs (Some a0) (Some s0) None = getAvailableMemory fs' (Some a0) (Some s0) None \<and>
      ret (getAvailableMemory fs (Some a0) (Some s0) None) = 0)"
proof (intro conjI impI)
  assume rl: "read_loop h stream v0 = (v, unread)"
  show "fgets_all stream = buffers_read h stream v0 @ fgets_all unread"
    by (rule read_loop_char(1) [OF rl])
  show "v = fold scan_line (buffers_read h stream v0) v0"
    by (rule read_loop_char(2) [OF rl])
  show "unread = [] \<or>
       (availableMemoryKb v \<noteq> - 1 \<and> freeSwapKb v \<noteq> - 1 \<and>
        (h \<longrightarrow> hugeTlbTotalPages v \<noteq> - 1 \<and> hugeTlbFreePages v \<noteq> - 1 \<and> hugeTlbPageSize v \<noteq> - 1))"
    using read_loop_char(3) [OF rl] by (auto simp: early_exit_def)
  show "\<forall>k. 0 < k \<and> k < length (buffers_read h stream v0) \<longrightarrow>
         \<not> early_exit h (fold scan_line (take k (buffers_read h stream v0)) v0)"
    by (rule read_loop_char(4) [OF rl])
next
  assume "p \<noteq> [] \<and> last p = NL \<and> early_exit h (fst (read_loop h p v0))"
  then show "read_loop h (p @ q) v0 = (fst (read_loop h p v0), snd (read_loop h p v0) @ q)"
    by (simp add: read_loop_append)
next
  assume a: "p \<noteq> [] \<and> last p = NL \<and>
    availableMemoryKb (fst (read_loop False p init_vars)) \<noteq> - 1 \<and>
    freeSwapKb (fst (read_loop False p init_vars)) \<noteq> - 1 \<and>
    fopen_r fs ''/proc/meminfo'' = Some (p @ q) \<and> fopen_r fs' ''/proc/meminfo'' = Some p"
  then have "early_exit False (fst (read_loop False p init_vars))"
    by (simp add: early_exit_def)
  with a have "read_loop False (p @ q) init_vars =
      (fst (read_loop False p init_vars), snd (read_loop False p init_vars) @ q)"
    by (simp add: read_loop_append)
  with a show "getAvailableMemory fs (Some a0) (Some s0) None = getAvailableMemory fs' (Some a0) (Some s0) None"
    by (simp add: getAvailableMemory_opened [of fs "p @ q"] getAvailableMemory_opened [of fs' p])
next
  assume "unmarked bs"
  then show "early_exit h (fold scan_line bs init_vars) \<longleftrightarrow>
         observed ''MemAvailable: %ld kB'' bs \<and> observed ''SwapFree: %ld kB'' bs \<and>
         (h \<longrightarrow> observed ''HugePages_Total: %ld'' bs \<and> observed ''HugePages_Free: %ld'' bs \<and>
                observed ''Hugepagesize: %ld kB'' bs)"
    by (rule unmarked_early_exit)
next
  assume a: "p \<noteq> [] \<and> last p = NL \<and> unmarked (fgets_all p) \<and>
    observed ''MemAvailable: %ld kB'' (fgets_all p) \<and> observed ''SwapFree: %ld kB'' (fgets_all p) \<and>
    (h \<longrightarrow> observed ''HugePages_Total: %ld'' (fgets_all p) \<and> observed ''HugePages_Free: %ld'' (fgets_all p) \<and>
           observed ''Hugepagesize: %ld kB'' (fgets_all p))"
  then have "early_exit h (fst (read_loop h p init_vars))"
    by (simp add: observed_early_exit)
  with a show "read_loop h (p @ q) init_vars = (fst (read_loop h p init_vars), snd (read_loop h p init_vars) @ q)"
    by (simp add: read_loop_append)
next
  assume a: "p \<noteq> [] \<and> last p = NL \<and> unmarked (fgets_all p) \<and>
    observed ''MemAvailable: %ld kB'' (fgets_all p) \<and> observed ''SwapFree: %ld kB'' (fgets_all p) \<and>
    fopen_r fs ''/proc/meminfo'' = Some (p @ q) \<and> fopen_r fs' ''/proc/meminfo'' = Some p"
  then have ex: "early_exit False (fst (read_loop False p init_vars))"
    by (simp add: observed_early_exit)
  with a have rl: "read_loop False (p @ q) init_vars =
      (fst (read_loop False p init_vars), snd (read_loop False p init_vars) @ q)"
    by (simp add: read_loop_append)
  with a show same: "getAvailableMemory fs (Some a0) (Some s0) None = getAvailableMemory fs' (Some a0) (Some s0) None"
    by (simp add: getAvailableMemory_opened [of fs "p @ q"] getAvailableMemory_opened [of fs' p])
  from a ex rl show "ret (getAvailableMemory fs (Some a0) (Some s0) None) = 0"
    by (simp add: getAvailableMemory_opened [of fs "p @ q"] early_exit_def)
qed


theorem early_exit_bounds_scan_witness:
  "read_loop False
      (unlines [''MemAvailable: 5 kB'', ''SwapFree: 3 kB'', ''HugePages_Total: many'', ''MemAvailable: 99 kB''])
      init_vars =
     (init_vars\<lparr>availableMemoryKb := 5, freeSwapKb := 3\<rparr>,
      unlines [''HugePages_Total: many'', ''MemAvailable: 99 kB'']) \<and>
   buffers_read False
      (unlines [''MemAvailable: 5 kB'', ''SwapFree: 3 kB'', ''HugePages_Total: many'', ''MemAvailable: 99 kB''])
      init_vars =
     [''MemAvailable: 5 kB'' @ [NL], ''SwapFree: 3 kB'' @ [NL]] \<and>
   unlines [''MemAvailable: 5 kB'', ''SwapFree: 3 kB''] \<noteq> [] \<and>
   last (unlines [''MemAvailable: 5 kB'', ''SwapFree: 3 kB'']) = NL \<and>
   early_exit False (fst (read_loop False (unlines [''MemAvailable: 5 kB'', ''SwapFree: 3 kB'']) init_vars)) \<and>
   fopen_r (meminfo_fs (unlines [''MemAvailable: 5 kB'', ''SwapFree: 3 kB''] @
        unlines [''HugePages_Total: many'', ''MemAvailable: 99 kB''])) ''/proc/meminfo'' =
     Some (unlines [''MemAvailable: 5 kB'', ''SwapFree: 3 kB''] @
        unlines [''HugePages_Total: many'', ''MemAvailable: 99 kB'']) \<and>
   getAvailableMemory (meminfo_fs (unlines [''MemAvailable: 5 kB'', ''SwapFree: 3 kB''] @
        unlines [''HugePages_Total: many'', ''MemAvailable: 99 kB''])) (Some 0) (Some 0) None =
     getAvailableMemory (meminfo_fs (unlines [''MemAvailable: 5 kB'', ''SwapFree: 3 kB''])) (Some 0) (Some 0) None \<and>
   getAvailableMemory (meminfo_fs (unlines [''MemAvailable: 5 kB'', ''SwapFree: 3 kB''])) (Some 0) (Some 0) None =
     \<lparr>ret = 0, out_availableMemoryKb = Some 5, out_freeSwapKb = Some 3, out_hugePagesInfoKb = None\<rparr> \<and>
   unmarked [''MemAvailable: 5 kB'' @ [NL], ''SwapFree: 3 kB'' @ [NL]] \<and>
   early_exit False (fold scan_line [''MemAvailable: 5 kB'' @ [NL], ''SwapFree: 3 kB'' @ [NL]] init_vars) \<and>
   observed ''MemAvailable: %ld kB'' [''MemAvailable: 5 kB'' @ [NL], ''SwapFree: 3 kB'' @ [NL]] \<and>
   observed ''SwapFree: %ld kB'' [''MemAvailable: 5 kB'' @ [NL], ''SwapFree: 3 kB'' @ [NL]] \<and>
   fgets_all (unlines [''MemAvailable: 5 kB'', ''SwapFree: 3 kB'']) =
     [''MemAvailable: 5 kB'' @ [NL], ''SwapFree: 3 kB'' @ [NL]] \<and>
   ret (getAvailableMemory (meminfo_fs (unlines [''MemAvailable: 5 kB'', ''SwapFree: 3 kB''] @
        unlines [''MemAvailable: -1 kB'', ''SwapFree: many''])) (Some 0) (Some 0) None) = 0 \<and>
   getAvailableMemory (meminfo_fs (unlines [''MemAvailable: 5 kB'', ''SwapFree: 3 kB''] @
        unlines [''MemAvailable: -1 kB'', ''SwapFree: many''])) (Some 0) (Some 0) None =
     getAvailableMemory (meminfo_fs (unlines [''MemAvailable: 5 kB'', ''SwapFree: 3 kB''])) (Some 0) (Some 0) None"
proof -
  let ?p = "unlines [''MemAvailable: 5 kB'', ''SwapFree: 3 kB'']"
  let ?q = "unlines [''HugePages_Total: many'', ''MemAvailable: 99 kB'']"
  let ?s = "unlines [''MemAvailable: 5 kB'', ''SwapFree: 3 kB'', ''HugePages_Total: many'', ''MemAvailable: 99 kB'']"
  have rl: "read_loop False ?s init_vars = (init_vars\<lparr>availableMemoryKb := 5, freeSwapKb := 3\<rparr>, ?q)"
    by (simp add: read_loop_unlines eval_buffer) (simp add: unlines_def)
  have br: "buffers_read False ?s init_vars = [''MemAvailable: 5 kB'' @ [NL], ''SwapFree: 3 kB'' @ [NL]]"
    by (simp add: buffers_read_unlines eval_buffer)
  have rp: "read_loop False ?p init_vars = (init_vars\<lparr>availableMemoryKb := 5, freeSwapKb := 3\<rparr>, [])"
    by (simp add: read_loop_unlines eval_buffer)
  have p: "?p \<noteq> []" "last ?p = NL"
    by (simp_all add: unlines_def)
  have ex: "early_exit False (fst (read_loop False ?p init_vars))"
    by (simp add: rp early_exit_def)
  have fields: "availableMemoryKb (fst (read_loop False ?p init_vars)) \<noteq> - 1"
    "freeSwapKb (fst (read_loop False ?p init_vars)) \<noteq> - 1"
    by (simp_all add: rp)
  have same: "getAvailableMemory (meminfo_fs (?p @ ?q)) (Some 0) (Some 0) None =
     getAvailableMemory (meminfo_fs ?p) (Some 0) (Some 0) None"
    using early_exit_bounds_scan [of False ?s init_vars _ _ ?p ?q "meminfo_fs (?p @ ?q)" "meminfo_fs ?p" 0 0 "[]"]
      p fields fopen_r_meminfo_fs [of "?p @ ?q"] fopen_r_meminfo_fs [of ?p]
    by blast
  have res: "getAvailableMemory (meminfo_fs ?p) (Some 0) (Some 0) None =
     \<lparr>ret = 0, out_availableMemoryKb = Some 5, out_freeSwapKb = Some 3, out_hugePagesInfoKb = None\<rparr>"
    by (simp add: eval_call)
  have um: "unmarked [''MemAvailable: 5 kB'' @ [NL], ''SwapFree: 3 kB'' @ [NL]]"
    by (simp add: unmarked_def eval_buffer)
  have ee: "early_exit False (fold scan_line [''MemAvailable: 5 kB'' @ [NL], ''SwapFree: 3 kB'' @ [NL]] init_vars)"
    by (simp add: eval_buffer)
  have ob: "observed ''MemAvailable: %ld kB'' [''MemAvailable: 5 kB'' @ [NL], ''SwapFree: 3 kB'' @ [NL]] \<and>
      observed ''SwapFree: %ld kB'' [''MemAvailable: 5 kB'' @ [NL], ''SwapFree: 3 kB'' @ [NL]]"
    using um ee
      early_exit_bounds_scan [of False ?s init_vars _ _ ?p ?q "meminfo_fs (?p @ ?q)" "meminfo_fs ?p" 0 0
        "[''MemAvailable: 5 kB'' @ [NL], ''SwapFree: 3 kB'' @ [NL]]"]
    by blast
  let ?r = "unlines [''MemAvailable: -1 kB'', ''SwapFree: many'']"
  have fa: "fgets_all ?p = [''MemAvailable: 5 kB'' @ [NL], ''SwapFree: 3 kB'' @ [NL]]"
    by (simp add: fgets_all_unlines)
  have ob': "observed ''MemAvailable: %ld kB'' (fgets_all ?p)" "observed ''SwapFree: %ld kB'' (fgets_all ?p)"
    by (simp_all add: fa observed_def eval_buffer)
  have um': "unmarked (fgets_all ?p)"
    using um by (simp add: fa)
  have indep: "getAvailableMemory (meminfo_fs (?p @ ?r)) (Some 0) (Some 0) None =
       getAvailableMemory (meminfo_fs ?p) (Some 0) (Some 0) None \<and>
     ret (getAvailableMemory (meminfo_fs (?p @ ?r)) (Some 0) (Some 0) None) = 0"
    using early_exit_bounds_scan [of False ?s init_vars _ _ ?p ?r "meminfo_fs (?p @ ?r)" "meminfo_fs ?p" 0 0 "[]"]
      p um' ob' fopen_r_meminfo_fs [of "?p @ ?r"] fopen_r_meminfo_fs [of ?p]
    by blast
  from rl br p ex same res um ee ob fa indep show ?thesis
    by (simp add: fopen_r_meminfo_fs)
qed

subsection \<open>A label on several lines\<close>

text \<open>
  Claim C10. Every line on which a format succeeds assigns its variable again: at the
  end of the loop each of the five variables holds the value of the last buffer read on
  which its format succeeds (and \<open>- 1\<close> when there is none), and the two mandatory
  outputs hold these values. A buffer that follows the point where the loop stopped is
  not among the buffers read.
\<close>

theorem last_matching_line_wins:
  assumes opened: "fopen_r fs ''/proc/meminfo'' = Some content"
    and rl: "read_loop (g \<noteq> None) content init_vars = (v, unread)"
  shows "fgets_all content = buffers_read (g \<noteq> None) content init_vars @ fgets_all unread \<and>
    availableMemoryKb v =
      last_value ''MemAvailable: %ld kB'' (buffers_read (g \<noteq> None) content init_vars) (- 1) \<and>
    freeSwapKb v =
      last_value ''SwapFree: %ld kB'' (buffers_read (g \<noteq> None) content init_vars) (- 1) \<and>
    hugeTlbTotalPages v =
      last_value ''HugePages_Total: %ld'' (buffers_read (g \<noteq> None) content init_vars) (- 1) \<and>
    hugeTlbFreePages v =
      last_value ''HugePages_Free: %ld'' (buffers_read (g \<noteq> None) content init_vars) (- 1) \<and>
    hugeTlbPageSize v =
      last_value ''Hugepagesize: %ld kB'' (buffers_read (g \<noteq> None) content init_vars) (- 1) \<and>
    out_availableMemoryKb (getAvailableMemory fs (Some a0) (Some s0) g) =
      Some (last_value ''MemAvailable: %ld kB'' (buffers_read (g \<noteq> None) content init_vars) (- 1)) \<and>
    out_freeSwapKb (getAvailableMemory fs (Some a0) (Some s0) g) =
      Some (last_value ''SwapFree: %ld kB'' (buffers_read (g \<noteq> None) content init_vars) (- 1))"
proof -
  have outs: "out_availableMemoryKb (getAvailableMemory fs (Some a0) (Some s0) g) = Some (availableMemoryKb v)"
    "out_freeSwapKb (getAvailableMemory fs (Some a0) (Some s0) g) = Some (freeSwapKb v)"
    using rl by (simp_all add: getAvailableMemory_opened [OF opened])
  from read_loop_char(1) [OF rl] read_loop_fields [OF rl] outs show ?thesis
    by simp
qed

theorem last_matching_line_wins_witness:
  "fopen_r (meminfo_fs (unlines [''MemAvailable: 1 kB'', ''MemAvailable: 2 kB'', ''SwapFree: 3 kB'', ''SwapFree: 4 kB'']))
      ''/proc/meminfo'' =
     Some (unlines [''MemAvailable: 1 kB'', ''MemAvailable: 2 kB'', ''SwapFree: 3 kB'', ''SwapFree: 4 kB'']) \<and>
   read_loop False
      (unlines [''MemAvailable: 1 kB'', ''MemAvailable: 2 kB'', ''SwapFree: 3 kB'', ''SwapFree: 4 kB'']) init_vars =
     (init_vars\<lparr>availableMemoryKb := 2, freeSwapKb := 3\<rparr>, ''SwapFree: 4 kB'' @ [NL]) \<and>
   buffers_read False
      (unlines [''MemAvailable: 1 kB'', ''MemAvailable: 2 kB'', ''SwapFree: 3 kB'', ''SwapFree: 4 kB'']) init_vars =
     [''MemAvailable: 1 kB'' @ [NL], ''MemAvailable: 2 kB'' @ [NL], ''SwapFree: 3 kB'' @ [NL]] \<and>
   out_availableMemoryKb (getAvailableMemory
      (meminfo_fs (unlines [''MemAvailable: 1 kB'', ''MemAvailable: 2 kB'', ''SwapFree: 3 kB'', ''SwapFree: 4 kB'']))
      (Some 0) (Some 0) None) = Some 2 \<and>
   out_freeSwapKb (getAvailableMemory
      (meminfo_fs (unlines [''MemAvailable: 1 kB'', ''MemAvailable: 2 kB'', ''SwapFree: 3 kB'', ''SwapFree: 4 kB'']))
      (Some 0) (Some 0) None) = Some 3"
proof -
  let ?c = "unlines [''MemAvailable: 1 kB'', ''MemAvailable: 2 kB'', ''SwapFree: 3 kB'', ''SwapFree: 4 kB'']"
  have rl: "read_loop False ?c init_vars =
     (init_vars\<lparr>availableMemoryKb := 2, freeSwapKb := 3\<rparr>, ''SwapFree: 4 kB'' @ [NL])"
    by (simp add: read_loop_unlines eval_buffer)
  have br: "buffers_read False ?c init_vars =
     [''MemAvailable: 1 kB'' @ [NL], ''MemAvailable: 2 kB'' @ [NL], ''SwapFree: 3 kB'' @ [NL]]"
    by (simp add: buffers_read_unlines eval_buffer)
  have lv: "last_value ''MemAvailable: %ld kB''
       [''MemAvailable: 1 kB'' @ [NL], ''MemAvailable: 2 kB'' @ [NL], ''SwapFree: 3 kB'' @ [NL]] (- 1) = 2"
    "last_value ''SwapFree: %ld kB''
       [''MemAvailable: 1 kB'' @ [NL], ''MemAvailable: 2 kB'' @ [NL], ''SwapFree: 3 kB'' @ [NL]] (- 1) = 3"
    by (simp_all add: eval_last_value eval_buffer)
  from last_matching_line_wins [of "meminfo_fs ?c" ?c None _ _ 0 0] rl br lv
  show ?thesis
    by (simp add: fopen_r_meminfo_fs)
qed

subsection \<open>The huge-page output\<close>

text \<open>
  Claim C3 says that the huge-page output is \<open>freePages \<times> pageSizeKb\<close> whenever the
  three huge-page fields were resolved during the scan and \<open>totalPages\<close> is positive.
  The code takes a field as resolved when its variable differs from \<open>- 1\<close>, and it
  multiplies in the type \<^verbatim>\<open>long\<close>. With the lines \<^verbatim>\<open>HugePages_Total: 4\<close>,
  \<^verbatim>\<open>HugePages_Free: -1\<close> and \<^verbatim>\<open>Hugepagesize: 2048 kB\<close> all three formats succeed on lines
  that the loop reads and \<open>totalPages\<close> is positive, yet the output is 0 and not the
  product. With \<^verbatim>\<open>HugePages_Free: 9223372036854775807\<close> and \<^verbatim>\<open>Hugepagesize: 2 kB\<close> the
  output is \<open>- 2\<close>, where the product of the two numbers is 18446744073709551614.
\<close>

theorem huge_pages_zero_although_observed:
  "getAvailableMemory (meminfo_fs (unlines [''MemAvailable: 5 kB'', ''SwapFree: 3 kB'', ''HugePages_Total: 4'',
       ''HugePages_Free: -1'', ''Hugepagesize: 2048 kB''])) (Some 0) (Some 0) (Some 7) =
     \<lparr>ret = 0, out_availableMemoryKb = Some 5, out_freeSwapKb = Some 3, out_hugePagesInfoKb = Some 0\<rparr> \<and>
   buffers_read True (unlines [''MemAvailable: 5 kB'', ''SwapFree: 3 kB'', ''HugePages_Total: 4'',
       ''HugePages_Free: -1'', ''Hugepagesize: 2048 kB'']) init_vars =
     [''MemAvailable: 5 kB'' @ [NL], ''SwapFree: 3 kB'' @ [NL], ''HugePages_Total: 4'' @ [NL],
      ''HugePages_Free: -1'' @ [NL], ''Hugepagesize: 2048 kB'' @ [NL]] \<and>
   sscanf_value (''HugePages_Total: 4'' @ [NL]) ''HugePages_Total: %ld'' = Some 4 \<and>
   sscanf_value (''HugePages_Free: -1'' @ [NL]) ''HugePages_Free: %ld'' = Some (- 1) \<and>
   sscanf_value (''Hugepagesize: 2048 kB'' @ [NL]) ''Hugepagesize: %ld kB'' = Some 2048 \<and>
   (0 :: long) <s 4 \<and>
   (- 1 :: long) * 2048 \<noteq> 0 \<and>
   getAvailableMemory (meminfo_fs (unlines [''MemAvailable: 5 kB'', ''SwapFree: 3 kB'', ''HugePages_Total: 4'',
       ''HugePages_Free: 9223372036854775807'', ''Hugepagesize: 2 kB''])) (Some 0) (Some 0) (Some 7) =
     \<lparr>ret = 0, out_availableMemoryKb = Some 5, out_freeSwapKb = Some 3, out_hugePagesInfoKb = Some (- 2)\<rparr> \<and>
   sscanf_value (''HugePages_Free: 9223372036854775807'' @ [NL]) ''HugePages_Free: %ld'' = Some 9223372036854775807 \<and>
   sscanf_value (''Hugepagesize: 2 kB'' @ [NL]) ''Hugepagesize: %ld kB'' = Some 2 \<and>
   sint (9223372036854775807 :: long) * sint (2 :: long) = 18446744073709551614 \<and>
   sint (- 2 :: long) = - 2"
proof -
  have c1: "getAvailableMemory (meminfo_fs (unlines [''MemAvailable: 5 kB'', ''SwapFree: 3 kB'', ''HugePages_Total: 4'',
       ''HugePages_Free: -1'', ''Hugepagesize: 2048 kB''])) (Some 0) (Some 0) (Some 7) =
     \<lparr>ret = 0, out_availableMemoryKb = Some 5, out_freeSwapKb = Some 3, out_hugePagesInfoKb = Some 0\<rparr>"
    by (simp add: eval_call)
  have br: "buffers_read True (unlines [''MemAvailable: 5 kB'', ''SwapFree: 3 kB'', ''HugePages_Total: 4'',
       ''HugePages_Free: -1'', ''Hugepagesize: 2048 kB'']) init_vars =
     [''MemAvailable: 5 kB'' @ [NL], ''SwapFree: 3 kB'' @ [NL], ''HugePages_Total: 4'' @ [NL],
      ''HugePages_Free: -1'' @ [NL], ''Hugepagesize: 2048 kB'' @ [NL]]"
    by (simp add: buffers_read_unlines eval_buffer)
  have sc: "sscanf_value (''HugePages_Total: 4'' @ [NL]) ''HugePages_Total: %ld'' = Some 4"
    "sscanf_value (''HugePages_Free: -1'' @ [NL]) ''HugePages_Free: %ld'' = Some (- 1)"
    "sscanf_value (''Hugepagesize: 2048 kB'' @ [NL]) ''Hugepagesize: %ld kB'' = Some 2048"
    "sscanf_value (''HugePages_Free: 9223372036854775807'' @ [NL]) ''HugePages_Free: %ld'' = Some 9223372036854775807"
    "sscanf_value (''Hugepagesize: 2 kB'' @ [NL]) ''Hugepagesize: %ld kB'' = Some 2"
    by (simp_all add: eval_buffer)
  have ar: "(0 :: long) <s 4" "(- 1 :: long) * 2048 \<noteq> 0"
    "sint (9223372036854775807 :: long) * sint (2 :: long) = 18446744073709551614"
    "sint (- 2 :: long) = - 2"
    by (simp_all add: word_sless_alt)
  have c2: "getAvailableMemory (meminfo_fs (unlines [''MemAvailable: 5 kB'', ''SwapFree: 3 kB'', ''HugePages_Total: 4'',
       ''HugePages_Free: 9223372036854775807'', ''Hugepagesize: 2 kB''])) (Some 0) (Some 0) (Some 7) =
     \<lparr>ret = 0, out_availableMemoryKb = Some 5, out_freeSwapKb = Some 3, out_hugePagesInfoKb = Some (- 2)\<rparr>"
    by (simp add: eval_call)
  from c1 br sc ar c2 show ?thesis
    by simp
qed

text \<open>
  Claim C3 as amended. In a successful call with huge pages requested, let \<open>totalPages\<close>,
  \<open>freePages\<close> and \<open>pageSizeKb\<close> be the values of the last buffers read on which the
  formats of \<^verbatim>\<open>HugePages_Total\<close>, \<^verbatim>\<open>HugePages_Free\<close> and \<^verbatim>\<open>Hugepagesize\<close> succeed, \<open>- 1\<close>
  standing for a field that no buffer resolved. The huge-page output is the product
  \<open>freePages * pageSizeKb\<close> when \<open>totalPages\<close> is positive and the other two are
  resolved, and 0 in every other case. The product is that of the C type; it is the
  product of the integers whenever that fits the type. A field can only be unresolved
  when the whole source has been read. Where no buffer read carries the value \<open>- 1\<close>, a
  field is resolved exactly when its format has succeeded on a buffer read.
\<close>

theorem huge_pages_report:
  assumes opened: "fopen_r fs ''/proc/meminfo'' = Some content"
    and ok: "ret (getAvailableMemory fs (Some a0) (Some s0) (Some g0)) = 0"
    and totalPages: "totalPages = last_value ''HugePages_Total: %ld'' (buffers_read True content init_vars) (- 1)"
    and freePages: "freePages = last_value ''HugePages_Free: %ld'' (buffers_read True content init_vars) (- 1)"
    and pageSizeKb: "pageSizeKb = last_value ''Hugepagesize: %ld kB'' (buffers_read True content init_vars) (- 1)"
  shows "out_hugePagesInfoKb (getAvailableMemory fs (Some a0) (Some s0) (Some g0)) =
      Some (if 0 <s totalPages \<and> freePages \<noteq> - 1 \<and> pageSizeKb \<noteq> - 1
            then freePages * pageSizeKb else 0) \<and>
    (LONG_MIN \<le> sint freePages * sint pageSizeKb \<and> sint freePages * sint pageSizeKb \<le> LONG_MAX \<longrightarrow>
       sint (freePages * pageSizeKb) = sint freePages * sint pageSizeKb) \<and>
    (buffers_read True content init_vars = fgets_all content \<or>
     (totalPages \<noteq> - 1 \<and> freePages \<noteq> - 1 \<and> pageSizeKb \<noteq> - 1)) \<and>
    (unmarked (buffers_read True content init_vars) \<longrightarrow>
       (totalPages \<noteq> - 1 \<longleftrightarrow> observed ''HugePages_Total: %ld'' (buffers_read True content init_vars)) \<and>
       (freePages \<noteq> - 1 \<longleftrightarrow> observed ''HugePages_Free: %ld'' (buffers_read True content init_vars)) \<and>
       (pageSizeKb \<noteq> - 1 \<longleftrightarrow> observed ''Hugepagesize: %ld kB'' (buffers_read True content init_vars)))"
proof -
  obtain v unread where rl: "read_loop True content init_vars = (v, unread)"
    by (cases "read_loop True content init_vars")
  have fields: "hugeTlbTotalPages v = totalPages" "hugeTlbFreePages v = freePages"
    "hugeTlbPageSize v = pageSizeKb"
    using read_loop_fields(3,4,5) [OF rl] totalPages freePages pageSizeKb by simp_all
  from ok rl have found: "availableMemoryKb v \<noteq> - 1 \<and> freeSwapKb v \<noteq> - 1"
    by (simp add: getAvailableMemory_opened [OF opened] split: if_splits)
  with rl fields have out: "out_hugePagesInfoKb (getAvailableMemory fs (Some a0) (Some s0) (Some g0)) =
      Some (if 0 <s totalPages \<and> freePages \<noteq> - 1 \<and> pageSizeKb \<noteq> - 1
            then freePages * pageSizeKb else 0)"
    by (simp add: getAvailableMemory_opened [OF opened])
  have whole: "buffers_read True content init_vars = fgets_all content \<or>
     (totalPages \<noteq> - 1 \<and> freePages \<noteq> - 1 \<and> pageSizeKb \<noteq> - 1)"
  proof (cases "unread = []")
    case True
    with read_loop_char(1) [OF rl] show ?thesis
      by (simp add: fgets_all_Nil)
  next
    case False
    with read_loop_char(3) [OF rl] fields show ?thesis
      by (simp add: early_exit_def)
  qed
  have seen: "(totalPages \<noteq> - 1 \<longleftrightarrow> observed ''HugePages_Total: %ld'' (buffers_read True content init_vars)) \<and>
       (freePages \<noteq> - 1 \<longleftrightarrow> observed ''HugePages_Free: %ld'' (buffers_read True content init_vars)) \<and>
       (pageSizeKb \<noteq> - 1 \<longleftrightarrow> observed ''Hugepagesize: %ld kB'' (buffers_read True content init_vars))"
    if "unmarked (buffers_read True content init_vars)"
    using unmarked_values [OF that] totalPages freePages pageSizeKb by simp
  from out whole seen show ?thesis
    by (simp add: sint_mult_in_range)
qed

theorem huge_pages_report_witness:
  "fopen_r (meminfo_fs (unlines [''MemAvailable:    524288 kB'', ''SwapFree:        131072 kB'',
       ''HugePages_Total:      4'', ''HugePages_Free:       2'', ''Hugepagesize:      2048 kB''])) ''/proc/meminfo'' =
     Some (unlines [''MemAvailable:    524288 kB'', ''SwapFree:        131072 kB'',
       ''HugePages_Total:      4'', ''HugePages_Free:       2'', ''Hugepagesize:      2048 kB'']) \<and>
   ret (getAvailableMemory (meminfo_fs (unlines [''MemAvailable:    524288 kB'', ''SwapFree:        131072 kB'',
       ''HugePages_Total:      4'', ''HugePages_Free:       2'', ''Hugepagesize:      2048 kB'']))
       (Some 0) (Some 0) (Some 7)) = 0 \<and>
   (4 :: long) = last_value ''HugePages_Total: %ld'' (buffers_read True (unlines [''MemAvailable:    524288 kB'',
       ''SwapFree:        131072 kB'', ''HugePages_Total:      4'', ''HugePages_Free:       2'',
       ''Hugepagesize:      2048 kB'']) init_vars) (- 1) \<and>
   (2 :: long) = last_value ''HugePages_Free: %ld'' (buffers_read True (unlines [''MemAvailable:    524288 kB'',
       ''SwapFree:        131072 kB'', ''HugePages_Total:      4'', ''HugePages_Free:       2'',
       ''Hugepagesize:      2048 kB'']) init_vars) (- 1) \<and>
   (2048 :: long) = last_value ''Hugepagesize: %ld kB'' (buffers_read True (unlines [''MemAvailable:    524288 kB'',
       ''SwapFree:        131072 kB'', ''HugePages_Total:      4'', ''HugePages_Free:       2'',
       ''Hugepagesize:      2048 kB'']) init_vars) (- 1) \<and>
   out_hugePagesInfoKb (getAvailableMemory (meminfo_fs (unlines [''MemAvailable:    524288 kB'',
       ''SwapFree:        131072 kB'', ''HugePages_Total:      4'', ''HugePages_Free:       2'',
       ''Hugepagesize:      2048 kB''])) (Some 0) (Some 0) (Some 7)) = Some 4096 \<and>
   LONG_MIN \<le> sint (2 :: long) * sint (2048 :: long) \<and>
   sint (2 :: long) * sint (2048 :: long) \<le> LONG_MAX \<and>
   sint ((2 :: long) * 2048) = 4096 \<and>
   unmarked (buffers_read True (unlines [''MemAvailable:    524288 kB'',
       ''SwapFree:        131072 kB'', ''HugePages_Total:      4'', ''HugePages_Free:       2'',
       ''Hugepagesize:      2048 kB'']) init_vars) \<and>
   observed ''HugePages_Total: %ld'' (buffers_read True (unlines [''MemAvailable:    524288 kB'',
       ''SwapFree:        131072 kB'', ''HugePages_Total:      4'', ''HugePages_Free:       2'',
       ''Hugepagesize:      2048 kB'']) init_vars) \<and>
   observed ''HugePages_Free: %ld'' (buffers_read True (unlines [''MemAvailable:    524288 kB'',
       ''SwapFree:        131072 kB'', ''HugePages_Total:      4'', ''HugePages_Free:       2'',
       ''Hugepagesize:      2048 kB'']) init_vars) \<and>
   observed ''Hugepagesize: %ld kB'' (buffers_read True (unlines [''MemAvailable:    524288 kB'',
       ''SwapFree:        131072 kB'', ''HugePages_Total:      4'', ''HugePages_Free:       2'',
       ''Hugepagesize:      2048 kB'']) init_vars)"
proof -
  let ?c = "unlines [''MemAvailable:    524288 kB'', ''SwapFree:        131072 kB'',
       ''HugePages_Total:      4'', ''HugePages_Free:       2'', ''Hugepagesize:      2048 kB'']"
  have ok: "ret (getAvailableMemory (meminfo_fs ?c) (Some 0) (Some 0) (Some 7)) = 0"
    by (simp add: eval_call)
  have br: "buffers_read True ?c init_vars =
      [''MemAvailable:    524288 kB'' @ [NL], ''SwapFree:        131072 kB'' @ [NL],
       ''HugePages_Total:      4'' @ [NL], ''HugePages_Free:       2'' @ [NL],
       ''Hugepagesize:      2048 kB'' @ [NL]]"
    by (simp add: buffers_read_unlines eval_buffer)
  have t: "(4 :: long) = last_value ''HugePages_Total: %ld'' (buffers_read True ?c init_vars) (- 1)"
    by (simp add: br) (simp add: eval_last_value eval_buffer)
  have f: "(2 :: long) = last_value ''HugePages_Free: %ld'' (buffers_read True ?c init_vars) (- 1)"
    by (simp add: br) (simp add: eval_last_value eval_buffer)
  have p: "(2048 :: long) = last_value ''Hugepagesize: %ld kB'' (buffers_read True ?c init_vars) (- 1)"
    by (simp add: br) (simp add: eval_last_value eval_buffer)
  have range: "LONG_MIN \<le> sint (2 :: long) * sint (2048 :: long)"
    "sint (2 :: long) * sint (2048 :: long) \<le> LONG_MAX"
    by (simp_all add: LONG_MIN_def LONG_MAX_def)
  have um: "unmarked (buffers_read True ?c init_vars)"
    by (simp add: br) (simp add: unmarked_def eval_buffer)
  from huge_pages_report [OF fopen_r_meminfo_fs ok t f p] range
  have "out_hugePagesInfoKb (getAvailableMemory (meminfo_fs ?c) (Some 0) (Some 0) (Some 7)) = Some 4096"
    and "sint ((2 :: long) * 2048) = 4096"
    by (simp_all add: word_sless_alt)
  moreover from huge_pages_report [OF fopen_r_meminfo_fs ok t f p] um
  have "observed ''HugePages_Total: %ld'' (buffers_read True ?c init_vars)"
    and "observed ''HugePages_Free: %ld'' (buffers_read True ?c init_vars)"
    and "observed ''Hugepagesize: %ld kB'' (buffers_read True ?c init_vars)"
    by simp_all
  ultimately show ?thesis
    using ok t f p range um by (simp add: fopen_r_meminfo_fs)
qed

subsection \<open>Well-formed sources\<close>

text \<open>
  Claim C1 says that a source with a well-formed \<^verbatim>\<open>MemAvailable: X kB\<close> line and a
  well-formed \<^verbatim>\<open>SwapFree: Y kB\<close> line is reported as X and Y whatever unrecognised lines
  stand between them. The code reads lines into a buffer of 512 bytes: a line of more
  than 510 bytes comes in pieces, and a piece may begin with a label although the line
  does not. Below, the second line has 511 times \<open>x\<close> before \<^verbatim>\<open>SwapFree: 9 kB\<close>; no format
  succeeds on it as a line, yet the call reports 9 as the free swap space and never
  reads the line \<^verbatim>\<open>SwapFree: 3 kB\<close>.
\<close>

theorem long_line_read_as_two:
  "mem_line 1 5 = ''MemAvailable: 5 kB'' \<and> swap_line 1 3 = ''SwapFree: 3 kB'' \<and>
   matching_formats (replicate 511 (CHR ''x'') @ ''SwapFree: 9 kB'') = [] \<and>
   getAvailableMemory
     (meminfo_fs (source_text [mem_line 1 5, replicate 511 (CHR ''x'') @ ''SwapFree: 9 kB'', swap_line 1 3] []))
     (Some 0) (Some 0) None =
     \<lparr>ret = 0, out_availableMemoryKb = Some 5, out_freeSwapKb = Some 9, out_hugePagesInfoKb = None\<rparr>"
proof -
  let ?x = "replicate 511 (CHR ''x'')"
  let ?c = "unlines [''MemAvailable: 5 kB'', ?x @ ''SwapFree: 9 kB'', ''SwapFree: 3 kB'']"
  have lines: "mem_line 1 5 = ''MemAvailable: 5 kB''" "swap_line 1 3 = ''SwapFree: 3 kB''"
    by (simp_all add: eval_line)
  have rep: "?x = CHR ''x'' # replicate 510 (CHR ''x'')"
    by (subst replicate_numeral) simp
  have none: "matching_formats (?x @ ''SwapFree: 9 kB'') = []"
    by (subst rep) (simp add: scan_line_first_char(1))
  have split: "?c = ''MemAvailable: 5 kB'' @ NL # (?x @ (''SwapFree: 9 kB'' @ NL # unlines [''SwapFree: 3 kB'']))"
    by (simp add: unlines_def)
  have "fgets_all ?c =
      (''MemAvailable: 5 kB'' @ [NL]) # fgets_all (?x @ (''SwapFree: 9 kB'' @ NL # unlines [''SwapFree: 3 kB'']))"
    unfolding split by (rule fgets_all_line) simp_all
  also have "fgets_all (?x @ (''SwapFree: 9 kB'' @ NL # unlines [''SwapFree: 3 kB''])) =
      ?x # fgets_all (''SwapFree: 9 kB'' @ NL # unlines [''SwapFree: 3 kB''])"
    by (rule fgets_all_full) simp_all
  also have "fgets_all (''SwapFree: 9 kB'' @ NL # unlines [''SwapFree: 3 kB'']) =
      (''SwapFree: 9 kB'' @ [NL]) # fgets_all (unlines [''SwapFree: 3 kB''])"
    by (rule fgets_all_line) simp_all
  also have "fgets_all (unlines [''SwapFree: 3 kB'']) = [''SwapFree: 3 kB'' @ [NL]]"
    by (simp add: fgets_all_unlines)
  finally have chunks: "fgets_all ?c =
      [''MemAvailable: 5 kB'' @ [NL], ?x, ''SwapFree: 9 kB'' @ [NL], ''SwapFree: 3 kB'' @ [NL]]" .
  have "getAvailableMemory (meminfo_fs ?c) (Some 0) (Some 0) None =
     \<lparr>ret = 0, out_availableMemoryKb = Some 5, out_freeSwapKb = Some 9, out_hugePagesInfoKb = None\<rparr>"
    by (simp add: getAvailableMemory_opened [OF fopen_r_meminfo_fs] read_loop_chunks chunks
        eval_buffer prefix_Cons_replicate)
  with lines none show ?thesis
    by (simp add: source_text_def)
qed

text \<open>
  Claim C1 as amended. Let every line of the source have at most 510 bytes (the last
  line may lack its newline); let one of the lines be \<^verbatim>\<open>MemAvailable:\<close>, blanks, the
  decimal numeral of \<open>x\<close> and \<^verbatim>\<open> kB\<close>, another the same for \<^verbatim>\<open>SwapFree:\<close> and \<open>y\<close>, with \<open>x\<close>
  and \<open>y\<close> in the range of \<^verbatim>\<open>long\<close>; and let neither mandatory format succeed on any other
  line (huge-page lines are such lines). Then the call succeeds and reports \<open>x\<close> and
  \<open>y\<close>, with or without huge pages requested. The hypotheses speak of the set of lines
  only, so the order of the lines does not matter.
\<close>

theorem mandatory_fields_reported:
  assumes opened: "fopen_r fs ''/proc/meminfo'' = Some (source_text ls t)"
    and short: "\<forall>l\<in>set (source_lines ls t). length l \<le> 510 \<and> NL \<notin> set l"
    and mem: "mem_line j x \<in> set (source_lines ls t)"
    and swap: "swap_line k y \<in> set (source_lines ls t)"
    and others: "\<forall>l\<in>set (source_lines ls t). l = mem_line j x \<or> l = swap_line k y \<or>
        (sscanf_value l ''MemAvailable: %ld kB'' = None \<and> sscanf_value l ''SwapFree: %ld kB'' = None)"
    and range: "int x \<le> LONG_MAX" "int y \<le> LONG_MAX"
  shows "ret (getAvailableMemory fs (Some a0) (Some s0) g) = 0 \<and>
    out_availableMemoryKb (getAvailableMemory fs (Some a0) (Some s0) g) = Some (word_of_nat x) \<and>
    out_freeSwapKb (getAvailableMemory fs (Some a0) (Some s0) g) = Some (word_of_nat y) \<and>
    sint (word_of_nat x :: long) = int x \<and> sint (word_of_nat y :: long) = int y"
proof -
  let ?A = "''MemAvailable: %ld kB''" and ?S = "''SwapFree: %ld kB''"
  let ?bs = "map (\<lambda>l. l @ [NL]) ls @ (if t = [] then [] else [t])"
  let ?pre = "buffers_read (g \<noteq> None) (source_text ls t) init_vars"
  have chunks: "fgets_all (source_text ls t) = ?bs"
    using short by (rule fgets_all_source_text)
  have line: "\<exists>l\<in>set (source_lines ls t). b = l \<or> b = l @ [NL]" if "b \<in> set ?bs" for b
    using that by (auto simp: source_lines_def split: if_splits)
  have buffer: "l \<in> set ?bs \<or> l @ [NL] \<in> set ?bs" if "l \<in> set (source_lines ls t)" for l
    using that by (auto simp: source_lines_def split: if_splits)
  note memv = sscanf_value_mem_line [OF range(1), of j]
  note swapv = sscanf_value_swap_line [OF range(2), of k]
  have valsA: "sscanf_value b ?A = None \<or> sscanf_value b ?A = Some (word_of_nat x)" if "b \<in> set ?bs" for b
  proof -
    from line [OF that] obtain l where l: "l \<in> set (source_lines ls t)" "b = l \<or> b = l @ [NL]" by blast
    from l(1) others have "l = mem_line j x \<or> l = swap_line k y \<or>
        (sscanf_value l ?A = None \<and> sscanf_value l ?S = None)" by blast
    with l(2) memv mandatory_formats_exclusive(2) [OF swapv(1)] mandatory_formats_exclusive(2) [OF swapv(2)]
    show ?thesis
      by (auto simp: sscanf_value_newline)
  qed
  have valsS: "sscanf_value b ?S = None \<or> sscanf_value b ?S = Some (word_of_nat y)" if "b \<in> set ?bs" for b
  proof -
    from line [OF that] obtain l where l: "l \<in> set (source_lines ls t)" "b = l \<or> b = l @ [NL]" by blast
    from l(1) others have "l = mem_line j x \<or> l = swap_line k y \<or>
        (sscanf_value l ?A = None \<and> sscanf_value l ?S = None)" by blast
    with l(2) swapv mandatory_formats_exclusive(1) [OF memv(1)] mandatory_formats_exclusive(1) [OF memv(2)]
    show ?thesis
      by (auto simp: sscanf_value_newline)
  qed
  from buffer [OF mem] memv obtain mb where memb: "mb \<in> set ?bs" "sscanf_value mb ?A = Some (word_of_nat x)"
    by blast
  from buffer [OF swap] swapv obtain sb where swapb: "sb \<in> set ?bs" "sscanf_value sb ?S = Some (word_of_nat y)"
    by blast
  obtain v unread where rl: "read_loop (g \<noteq> None) (source_text ls t) init_vars = (v, unread)"
    by (cases "read_loop (g \<noteq> None) (source_text ls t) init_vars")
  have sub: "set ?pre \<subseteq> set ?bs"
    using set_buffers_read [of "g \<noteq> None" "source_text ls t" init_vars] chunks by simp
  have whole: "?pre = ?bs" if "availableMemoryKb v = - 1 \<or> freeSwapKb v = - 1"
  proof -
    from that have "\<not> early_exit (g \<noteq> None) v"
      by (auto simp: early_exit_def)
    with read_loop_char(3) [OF rl] have "unread = []" by simp
    with read_loop_char(1) [OF rl] chunks show ?thesis
      by (simp add: fgets_all_Nil)
  qed
  have nx: "(word_of_nat x :: long) \<noteq> - 1" and ny: "(word_of_nat y :: long) \<noteq> - 1"
    using range by (simp_all add: long_of_nat_range(2))
  have a: "availableMemoryKb v = word_of_nat x"
  proof (cases "availableMemoryKb v = - 1")
    case True
    with whole read_loop_fields(1) [OF rl] have "last_value ?A ?bs (- 1) = - 1" by simp
    from last_value_default [OF this] memb valsA nx show ?thesis
      by (metis option.distinct(1) option.inject)
  next
    case False
    with read_loop_fields(1) [OF rl] last_value_cases [of ?A ?pre "- 1"]
    obtain b where "b \<in> set ?pre" "sscanf_value b ?A = Some (availableMemoryKb v)"
      by auto
    with sub valsA [of b] show ?thesis by auto
  qed
  have s: "freeSwapKb v = word_of_nat y"
  proof (cases "freeSwapKb v = - 1")
    case True
    with whole read_loop_fields(2) [OF rl] have "last_value ?S ?bs (- 1) = - 1" by simp
    from last_value_default [OF this] swapb valsS ny show ?thesis
      by (metis option.distinct(1) option.inject)
  next
    case False
    with read_loop_fields(2) [OF rl] last_value_cases [of ?S ?pre "- 1"]
    obtain b where "b \<in> set ?pre" "sscanf_value b ?S = Some (freeSwapKb v)"
      by auto
    with sub valsS [of b] show ?thesis by auto
  qed
  from a s nx ny rl range show ?thesis
    by (simp add: getAvailableMemory_opened [OF opened] long_of_nat_range(1))
qed

theorem mandatory_fields_reported_witness:
  "fopen_r (meminfo_fs (source_text [''Cached: 1 kB'', swap_line 8 131072, ''Bounce: 0 kB''] (mem_line 4 524288)))
     ''/proc/meminfo'' =
     Some (source_text [''Cached: 1 kB'', swap_line 8 131072, ''Bounce: 0 kB''] (mem_line 4 524288)) \<and>
   source_lines [''Cached: 1 kB'', swap_line 8 131072, ''Bounce: 0 kB''] (mem_line 4 524288) =
     [''Cached: 1 kB'', ''SwapFree:        131072 kB'', ''Bounce: 0 kB'', ''MemAvailable:    524288 kB''] \<and>
   mem_line 4 524288 = ''MemAvailable:    524288 kB'' \<and>
   swap_line 8 131072 = ''SwapFree:        131072 kB'' \<and>
   sscanf_value ''Cached: 1 kB'' ''MemAvailable: %ld kB'' = None \<and>
   sscanf_value ''Cached: 1 kB'' ''SwapFree: %ld kB'' = None \<and>
   sscanf_value ''Bounce: 0 kB'' ''MemAvailable: %ld kB'' = None \<and>
   sscanf_value ''Bounce: 0 kB'' ''SwapFree: %ld kB'' = None \<and>
   int 524288 \<le> LONG_MAX \<and> int 131072 \<le> LONG_MAX \<and>
   ret (getAvailableMemory
     (meminfo_fs (source_text [''Cached: 1 kB'', swap_line 8 131072, ''Bounce: 0 kB''] (mem_line 4 524288)))
     (Some 0) (Some 0) (Some 0)) = 0 \<and>
   out_availableMemoryKb (getAvailableMemory
     (meminfo_fs (source_text [''Cached: 1 kB'', swap_line 8 131072, ''Bounce: 0 kB''] (mem_line 4 524288)))
     (Some 0) (Some 0) (Some 0)) = Some 524288 \<and>
   out_freeSwapKb (getAvailableMemory
     (meminfo_fs (source_text [''Cached: 1 kB'', swap_line 8 131072, ''Bounce: 0 kB''] (mem_line 4 524288)))
     (Some 0) (Some 0) (Some 0)) = Some 131072"
proof -
  let ?ls = "[''Cached: 1 kB'', swap_line 8 131072, ''Bounce: 0 kB'']"
  let ?t = "mem_line 4 524288"
  have lines: "mem_line 4 524288 = ''MemAvailable:    524288 kB''"
    "swap_line 8 131072 = ''SwapFree:        131072 kB''"
    by (simp_all add: eval_line)
  have all: "source_lines ?ls ?t =
     [''Cached: 1 kB'', ''SwapFree:        131072 kB'', ''Bounce: 0 kB'', ''MemAvailable:    524288 kB'']"
    by (simp add: source_lines_def lines)
  have short: "\<forall>l\<in>set (source_lines ?ls ?t). length l \<le> 510 \<and> NL \<notin> set l"
    by (simp add: all)
  have mem: "mem_line 4 524288 \<in> set (source_lines ?ls ?t)"
    and swap: "swap_line 8 131072 \<in> set (source_lines ?ls ?t)"
    by (simp_all add: all) (simp_all add: lines)
  have unrec: "sscanf_value ''Cached: 1 kB'' ''MemAvailable: %ld kB'' = None"
    "sscanf_value ''Cached: 1 kB'' ''SwapFree: %ld kB'' = None"
    "sscanf_value ''Bounce: 0 kB'' ''MemAvailable: %ld kB'' = None"
    "sscanf_value ''Bounce: 0 kB'' ''SwapFree: %ld kB'' = None"
    by (simp_all add: eval_buffer)
  have others: "\<forall>l\<in>set (source_lines ?ls ?t). l = mem_line 4 524288 \<or> l = swap_line 8 131072 \<or>
        (sscanf_value l ''MemAvailable: %ld kB'' = None \<and> sscanf_value l ''SwapFree: %ld kB'' = None)"
    using unrec by (simp add: all) (simp add: lines)
  have range: "int 524288 \<le> LONG_MAX" "int 131072 \<le> LONG_MAX"
    by (simp_all add: LONG_MAX_def)
  from mandatory_fields_reported [OF fopen_r_meminfo_fs short mem swap others range, of 0 0 "Some 0"]
    all lines unrec range
  show ?thesis
    by (simp add: fopen_r_meminfo_fs)
qed

subsection \<open>Missing mandatory fields\<close>

text \<open>
  Claim C4 says that an opened source makes the call fail exactly when it has no
  \<^verbatim>\<open>MemAvailable\<close> entry or no \<^verbatim>\<open>SwapFree\<close> entry, and that huge-page fields never matter
  for that. The code marks a missing field by the value \<open>- 1\<close>, and a line that carries
  \<open>- 1\<close> sets the mark again. With huge pages requested and no huge-page line, the scan
  goes on after both fields are resolved: the source below has both entries, with 5 and
  3, and fails on its third line; the same lines after three huge-page lines succeed.
\<close>

theorem failure_although_fields_present:
  "ret (getAvailableMemory
     (meminfo_fs (unlines [''MemAvailable: 5 kB'', ''SwapFree: 3 kB'', ''MemAvailable: -1 kB'']))
     (Some 0) (Some 0) (Some 0)) = 1 \<and>
   fgets_all (unlines [''MemAvailable: 5 kB'', ''SwapFree: 3 kB'', ''MemAvailable: -1 kB'']) =
     [''MemAvailable: 5 kB'' @ [NL], ''SwapFree: 3 kB'' @ [NL], ''MemAvailable: -1 kB'' @ [NL]] \<and>
   sscanf_value (''MemAvailable: 5 kB'' @ [NL]) ''MemAvailable: %ld kB'' = Some 5 \<and>
   sscanf_value (''SwapFree: 3 kB'' @ [NL]) ''SwapFree: %ld kB'' = Some 3 \<and>
   ret (getAvailableMemory
     (meminfo_fs (unlines [''HugePages_Total: 1'', ''HugePages_Free: 1'', ''Hugepagesize: 2048 kB'',
        ''MemAvailable: 5 kB'', ''SwapFree: 3 kB'', ''MemAvailable: -1 kB'']))
     (Some 0) (Some 0) (Some 0)) = 0"
  by (simp add: eval_call fgets_all_unlines)

text \<open>
  Claim C4 as amended. For an opened source: if no buffer matches the \<^verbatim>\<open>MemAvailable\<close>
  format, or none the \<^verbatim>\<open>SwapFree\<close> format, the call fails (returns 1). If moreover no
  buffer carries the value \<open>- 1\<close> for either field, the call fails in that case only;
  then neither the request for huge pages nor any huge-page line has a part in it. The
  call returns 0 or 1. (The code has the one error code 1 for every failure.)
\<close>

theorem required_field_missing:
  assumes opened: "fopen_r fs ''/proc/meminfo'' = Some content"
  shows
   "((\<forall>b\<in>set (fgets_all content). sscanf_value b ''MemAvailable: %ld kB'' = None) \<or>
     (\<forall>b\<in>set (fgets_all content). sscanf_value b ''SwapFree: %ld kB'' = None) \<longrightarrow>
       ret (getAvailableMemory fs (Some a0) (Some s0) g) = 1) \<and>
    ((\<forall>b\<in>set (fgets_all content).
         sscanf_value b ''MemAvailable: %ld kB'' \<noteq> Some (- 1) \<and>
         sscanf_value b ''SwapFree: %ld kB'' \<noteq> Some (- 1)) \<longrightarrow>
       (ret (getAvailableMemory fs (Some a0) (Some s0) g) = 1 \<longleftrightarrow>
          (\<forall>b\<in>set (fgets_all content). sscanf_value b ''MemAvailable: %ld kB'' = None) \<or>
          (\<forall>b\<in>set (fgets_all content). sscanf_value b ''SwapFree: %ld kB'' = None))) \<and>
    (ret (getAvailableMemory fs (Some a0) (Some s0) g) = 0 \<or>
     ret (getAvailableMemory fs (Some a0) (Some s0) g) = 1)"
proof -
  let ?r = "getAvailableMemory fs (Some a0) (Some s0) g"
  let ?pre = "buffers_read (g \<noteq> None) content init_vars"
  let ?noA = "\<forall>b\<in>set (fgets_all content). sscanf_value b ''MemAvailable: %ld kB'' = None"
  let ?noS = "\<forall>b\<in>set (fgets_all content). sscanf_value b ''SwapFree: %ld kB'' = None"
  obtain v unread where rl: "read_loop (g \<noteq> None) content init_vars = (v, unread)"
    by (cases "read_loop (g \<noteq> None) content init_vars")
  have ret: "ret ?r = (if availableMemoryKb v = - 1 \<or> freeSwapKb v = - 1 then 1 else 0)"
    using rl by (simp add: getAvailableMemory_opened [OF opened])
  have sub: "set ?pre \<subseteq> set (fgets_all content)"
    by (rule set_buffers_read)
  have missing: "ret ?r = 1" if "?noA \<or> ?noS"
  proof -
    from that sub have "(\<forall>b\<in>set ?pre. sscanf_value b ''MemAvailable: %ld kB'' = None) \<or>
        (\<forall>b\<in>set ?pre. sscanf_value b ''SwapFree: %ld kB'' = None)"
      by blast
    then have "availableMemoryKb v = - 1 \<or> freeSwapKb v = - 1"
      using read_loop_fields(1,2) [OF rl] by (auto simp: last_value_none)
    with ret show ?thesis by simp
  qed
  have only: "?noA \<or> ?noS"
    if clean: "\<forall>b\<in>set (fgets_all content).
         sscanf_value b ''MemAvailable: %ld kB'' \<noteq> Some (- 1) \<and>
         sscanf_value b ''SwapFree: %ld kB'' \<noteq> Some (- 1)"
      and fails: "ret ?r = 1"
  proof -
    from fails ret have unset: "availableMemoryKb v = - 1 \<or> freeSwapKb v = - 1"
      by (simp split: if_splits)
    then have "\<not> early_exit (g \<noteq> None) v"
      by (auto simp: early_exit_def)
    with read_loop_char(3) [OF rl] have "unread = []" by simp
    with read_loop_char(1) [OF rl] have all: "?pre = fgets_all content"
      by (simp add: fgets_all_Nil)
    from unset show ?thesis
    proof
      assume "availableMemoryKb v = - 1"
      with read_loop_fields(1) [OF rl] all
      have "last_value ''MemAvailable: %ld kB'' (fgets_all content) (- 1) = - 1" by simp
      from last_value_default [OF this] clean show ?thesis by blast
    next
      assume "freeSwapKb v = - 1"
      with read_loop_fields(2) [OF rl] all
      have "last_value ''SwapFree: %ld kB'' (fgets_all content) (- 1) = - 1" by simp
      from last_value_default [OF this] clean show ?thesis by blast
    qed
  qed
  from ret have "ret ?r = 0 \<or> ret ?r = 1" by simp
  with missing only show ?thesis by blast
qed

theorem required_field_missing_witness:
  "fopen_r (meminfo_fs (unlines [''MemAvailable: 5 kB'', ''HugePages_Total: 1''])) ''/proc/meminfo'' =
     Some (unlines [''MemAvailable: 5 kB'', ''HugePages_Total: 1'']) \<and>
   fgets_all (unlines [''MemAvailable: 5 kB'', ''HugePages_Total: 1'']) =
     [''MemAvailable: 5 kB'' @ [NL], ''HugePages_Total: 1'' @ [NL]] \<and>
   sscanf_value (''MemAvailable: 5 kB'' @ [NL]) ''SwapFree: %ld kB'' = None \<and>
   sscanf_value (''HugePages_Total: 1'' @ [NL]) ''SwapFree: %ld kB'' = None \<and>
   sscanf_value (''MemAvailable: 5 kB'' @ [NL]) ''MemAvailable: %ld kB'' = Some 5 \<and>
   sscanf_value (''HugePages_Total: 1'' @ [NL]) ''MemAvailable: %ld kB'' = None \<and>
   ret (getAvailableMemory (meminfo_fs (unlines [''MemAvailable: 5 kB'', ''HugePages_Total: 1'']))
     (Some 0) (Some 0) (Some 0)) = 1"
proof -
  let ?c = "unlines [''MemAvailable: 5 kB'', ''HugePages_Total: 1'']"
  have chunks: "fgets_all ?c = [''MemAvailable: 5 kB'' @ [NL], ''HugePages_Total: 1'' @ [NL]]"
    by (simp add: fgets_all_unlines)
  have vals: "sscanf_value (''MemAvailable: 5 kB'' @ [NL]) ''SwapFree: %ld kB'' = None"
    "sscanf_value (''HugePages_Total: 1'' @ [NL]) ''SwapFree: %ld kB'' = None"
    "sscanf_value (''MemAvailable: 5 kB'' @ [NL]) ''MemAvailable: %ld kB'' = Some 5"
    "sscanf_value (''HugePages_Total: 1'' @ [NL]) ''MemAvailable: %ld kB'' = None"
    by (simp_all add: eval_buffer)
  have noS: "\<forall>b\<in>set (fgets_all ?c). sscanf_value b ''SwapFree: %ld kB'' = None"
    using vals by (simp add: chunks)
  have clean: "\<forall>b\<in>set (fgets_all ?c).
         sscanf_value b ''MemAvailable: %ld kB'' \<noteq> Some (- 1) \<and>
         sscanf_value b ''SwapFree: %ld kB'' \<noteq> Some (- 1)"
    using vals by (simp add: chunks)
  from required_field_missing [OF fopen_r_meminfo_fs, of ?c 0 0 "Some 0"] noS clean
  have "ret (getAvailableMemory (meminfo_fs ?c) (Some 0) (Some 0) (Some 0)) = 1"
    by blast
  with chunks vals show ?thesis
    by (simp add: fopen_r_meminfo_fs)
qed

end
